theory Spec2Isabelle
  imports Complex_Main
begin

section \<open>Photo provider (PhotoGallery.ts)\<close>

text \<open>
  The gallery is a fixed table of twelve entries. \<open>getPhotoData\<close> throws on a negative
  index, reads the table below its length, and synthesises a datum above it. A JavaScript
  number with an integer value is modelled as that \<open>int\<close>, with the rounding of its
  arithmetic and of its printing written out; the thrown \<open>Error\<close> is the left summand of
  the result.
\<close>

record PhotoData =
  path :: "string option"
  title :: string
  footer :: string
  demoNumber :: "int option"

datatype error = Error string

definition photoImages :: "PhotoData list" where
  "photoImages =
    [\<lparr>path = None, title = ''Photo #1, Norman, Okla.'', footer = ''DEMO-001'', demoNumber = None\<rparr>,
     \<lparr>path = None, title = ''Photo #2, Norman, Okla.'', footer = ''DEMO-002'', demoNumber = None\<rparr>,
     \<lparr>path = None, title = ''Photo #3, Norman, Okla.'', footer = ''DEMO-003'', demoNumber = None\<rparr>,
     \<lparr>path = None, title = ''Photo #4, Norman, Okla.'', footer = ''DEMO-004'', demoNumber = None\<rparr>,
     \<lparr>path = None, title = ''Photo #5, Norman, Okla.'', footer = ''DEMO-005'', demoNumber = None\<rparr>,
     \<lparr>path = None, title = ''Photo #6, Norman, Okla.'', footer = ''DEMO-006'', demoNumber = None\<rparr>,
     \<lparr>path = None, title = ''Photo #7, Norman, Okla.'', footer = ''DEMO-007'', demoNumber = None\<rparr>,
     \<lparr>path = None, title = ''Photo #8, Norman, Okla.'', footer = ''DEMO-008'', demoNumber = None\<rparr>,
     \<lparr>path = None, title = ''Photo #9, Norman, Okla.'', footer = ''DEMO-009'', demoNumber = None\<rparr>,
     \<lparr>path = None, title = ''Photo #10, Norman, Okla.'', footer = ''DEMO-010'', demoNumber = None\<rparr>,
     \<lparr>path = None, title = ''Photo #11, Norman, Okla.'', footer = ''DEMO-011'', demoNumber = None\<rparr>,
     \<lparr>path = None, title = ''Photo #12, Norman, Okla.'', footer = ''DEMO-012'', demoNumber = None\<rparr>]"

text \<open>The decimal digits of a natural number.\<close>

definition digitChar :: "nat \<Rightarrow> char" where
  "digitChar d = ''0123456789'' ! (d mod 10)"

fun natToString :: "nat \<Rightarrow> string" where
  "natToString n =
     (if n < 10 then [digitChar n] else natToString (n div 10) @ [digitChar (n mod 10)])"

text \<open>
  A JavaScript number is an IEEE double. Every integer up to \<open>2 ^ 53\<close> is one; a larger
  integer is rounded to 53 significant bits, to the nearest double and to the even one of
  two equally near. \<open>a + b\<close> is the exact sum, rounded. (Sums beyond the largest finite
  double do not arise from adding 1 to a double.)
\<close>

fun bitLength :: "nat \<Rightarrow> nat" where
  "bitLength n = (if n = 0 then 0 else Suc (bitLength (n div 2)))"

definition roundToDouble :: "nat \<Rightarrow> nat" where
  "roundToDouble a =
     (if a \<le> 2 ^ 53 then a
      else
        let q = 2 ^ (bitLength a - 53); r = a mod q; lo = a - r; hi = lo + q
        in if 2 * r < q then lo
           else if q < 2 * r then hi
           else if even (lo div q) then lo else hi)"

definition toDouble :: "int \<Rightarrow> int" where
  "toDouble m =
     (if m < 0 then - int (roundToDouble (nat (- m))) else int (roundToDouble (nat m)))"

definition jsAdd :: "int \<Rightarrow> int \<Rightarrow> int" where
  "jsAdd a b = toDouble (a + b)"

text \<open>
  \<open>String(x)\<close>, and \<open>x\<close> in a template literal, on a number with an integer value: the
  decimal numeral with the fewest significant digits that still rounds to \<open>x\<close> (the
  nearest such, of at most 17 digits), written out in full with its trailing zeros when
  it has at most 21 digits and in exponent notation otherwise, with a minus sign below
  zero. Up to \<open>2 ^ 53\<close> that numeral is the number itself.
\<close>

definition candidate :: "nat \<Rightarrow> nat \<Rightarrow> nat option" where
  "candidate k x =
     (let p = 10 ^ (length (natToString x) - k); lo = (x div p) * p; hi = lo + p
      in if roundToDouble lo = x \<and> roundToDouble hi = x then
           Some (if x - lo < hi - x then lo
                 else if hi - x < x - lo then hi
                 else if even (x div p) then lo else hi)
         else if roundToDouble lo = x then Some lo
         else if roundToDouble hi = x then Some hi
         else None)"

fun shortestFrom :: "nat \<Rightarrow> nat \<Rightarrow> nat \<Rightarrow> nat" where
  "shortestFrom 0 k x = x"
| "shortestFrom (Suc fuel) k x =
     (case candidate k x of Some v \<Rightarrow> v | None \<Rightarrow> shortestFrom fuel (Suc k) x)"

definition shortestDecimal :: "nat \<Rightarrow> nat" where
  "shortestDecimal x = (if x \<le> 2 ^ 53 then x else shortestFrom 17 1 x)"

definition stripTrailingZeros :: "string \<Rightarrow> string" where
  "stripTrailingZeros ds = rev (dropWhile (\<lambda>c. c = CHR ''0'') (rev ds))"

definition formatDecimal :: "nat \<Rightarrow> string" where
  "formatDecimal v =
     (let ds = natToString v; n = length ds; s = stripTrailingZeros ds
      in if n \<le> 21 then ds
         else if length s = 1 then s @ ''e+'' @ natToString (n - 1)
         else hd s # CHR ''.'' # tl s @ ''e+'' @ natToString (n - 1))"

definition numberToString :: "int \<Rightarrow> string" where
  "numberToString i =
     (if i < 0 then CHR ''-'' # formatDecimal (shortestDecimal (nat (- i)))
      else formatDecimal (shortestDecimal (nat i)))"

text \<open>\<open>s.padStart(targetLength, c)\<close> with a one-character pad string.\<close>

definition padStart :: "nat \<Rightarrow> char \<Rightarrow> string \<Rightarrow> string" where
  "padStart targetLength c s =
     (if targetLength \<le> length s then s else replicate (targetLength - length s) c @ s)"

definition getPhotoData :: "int \<Rightarrow> error + PhotoData" where
  "getPhotoData index =
     (if index < 0 then
        Inl (Error (''Invalid card index: '' @ numberToString index @ ''. Must be >= 0''))
      else if index < int (length photoImages) then
        Inr ((photoImages ! nat index)\<lparr>demoNumber := Some (jsAdd index 1)\<rparr>)
      else
        Inr \<lparr>path = None,
             title = ''Photo #'' @ numberToString (jsAdd index 1) @ '', Norman, Okla.'',
             footer = ''DEMO-'' @ padStart 3 (CHR ''0'') (numberToString (jsAdd index 1)),
             demoNumber = Some (jsAdd index 1)\<rparr>)"

text \<open>Reading a digit string back, to say what a footer's numeric part denotes.\<close>

definition digitValue :: "char \<Rightarrow> nat" where
  "digitValue c = of_char c - 48"

definition decimalValue :: "string \<Rightarrow> nat" where
  "decimalValue s = foldl (\<lambda>acc c. 10 * acc + digitValue c) 0 s"

definition isDigit :: "char \<Rightarrow> bool" where
  "isDigit c = (c \<in> set ''0123456789'')"

section \<open>Cards and the photo-swap helpers (PhotoCollage component)\<close>

text \<open>
  The component imports \<open>Card\<close>, \<open>CardId\<close> and \<open>AnimationState\<close> from a module that is
  not among the sources. The six identifiers and the five animation states are the keys
  and values the component writes, and the fields of a card are the ones it reads and
  writes (\<open>id\<close> is written \<open>cardId\<close> here).
\<close>

datatype CardId = CARD_A | CARD_B | CARD_C | CARD_D | CARD_E | CARD_F

datatype AnimationState = OFFSCREEN | ONSCREEN | MOVE_TO_POSITION | FLY_LEFT | FLY_RIGHT

text \<open>
  Modelled from the spec: the six slot identifiers of module \<open>Card\<close>, which is not among
  the sources. The component names \<open>center\<close> (the specification's front slot) and
  \<open>centerBack\<close>; the other four names are the specification's.
\<close>

datatype Position = center | centerBack | left1 | left2 | right1 | right2

record Card =
  cardId :: CardId
  position :: Position
  zIndex :: int
  currentPhotoIndex :: int

text \<open>
  JavaScript's \<open>%\<close> truncates: the result has the sign of the dividend. On a dividend that
  is not negative it is the mathematical remainder.
\<close>

definition jsRemainder :: "int \<Rightarrow> int \<Rightarrow> int" where
  "jsRemainder a b = (if 0 \<le> a then a mod \<bar>b\<bar> else - ((- a) mod \<bar>b\<bar>))"

text \<open>
  \<open>updatedCards.find(p)\<close> returns a reference to the first element that satisfies \<open>p\<close>, and
  the assignment to one of its fields changes that element of \<open>updatedCards\<close>:
  \<open>updateFirst\<close> is that write on a list of values.
\<close>

fun updateFirst :: "('a \<Rightarrow> bool) \<Rightarrow> ('a \<Rightarrow> 'a) \<Rightarrow> 'a list \<Rightarrow> 'a list" where
  "updateFirst p f [] = []"
| "updateFirst p f (x # xs) = (if p x then f x # xs else x # updateFirst p f xs)"

definition swapPhotoOnCardID :: "CardId \<Rightarrow> Card list \<Rightarrow> Card list" where
  "swapPhotoOnCardID targetId cs =
     (let updatedCards = map (\<lambda>c. c) cs in
      case find (\<lambda>c. cardId c = targetId) updatedCards of
        Some targetCard \<Rightarrow>
          updateFirst (\<lambda>c. cardId c = targetId)
            (\<lambda>c. c\<lparr>currentPhotoIndex :=
                   jsRemainder (currentPhotoIndex targetCard + 6) (int (length photoImages))\<rparr>)
            updatedCards
      | None \<Rightarrow> updatedCards)"

definition swapPhotoBackShuffle :: "Card list \<Rightarrow> Card list" where
  "swapPhotoBackShuffle currentCards =
     (let updatedCards = map (\<lambda>c. c) currentCards in
      case (find (\<lambda>c. position c = centerBack) updatedCards,
            find (\<lambda>c. position c = center) updatedCards) of
        (Some centerBackCard, Some centerCard) \<Rightarrow>
          updateFirst (\<lambda>c. position c = centerBack)
            (\<lambda>c. c\<lparr>currentPhotoIndex :=
                   (if currentPhotoIndex centerCard = 0 then int (length photoImages) - 1
                    else currentPhotoIndex centerCard - 1)\<rparr>)
            updatedCards
      | _ \<Rightarrow> updatedCards)"

subsection \<open>The same helpers on an object store\<close>

text \<open>
  Whether the helpers leave their argument alone is a question about references, so they
  are also written over a store of card objects. An address is an index into the store,
  an array is a list of addresses, and \<open>cards.map(c => ({ ...c }))\<close> allocates one new
  object per element, in order, at the end of the store. Objects are never freed.
\<close>

type_synonym heap = "Card list"

definition copyCards :: "nat list \<Rightarrow> heap \<Rightarrow> nat list \<times> heap" where
  "copyCards arr h = ([length h ..< length h + length arr], h @ map (\<lambda>a. h ! a) arr)"

definition swapPhotoOnCardID_heap :: "CardId \<Rightarrow> nat list \<Rightarrow> heap \<Rightarrow> nat list \<times> heap" where
  "swapPhotoOnCardID_heap targetId arr h =
     (case copyCards arr h of (updatedCards, h1) \<Rightarrow>
        (case find (\<lambda>a. cardId (h1 ! a) = targetId) updatedCards of
           Some targetCard \<Rightarrow>
             (updatedCards,
              h1[targetCard := (h1 ! targetCard)\<lparr>currentPhotoIndex :=
                   jsRemainder (currentPhotoIndex (h1 ! targetCard) + 6)
                     (int (length photoImages))\<rparr>])
         | None \<Rightarrow> (updatedCards, h1)))"

definition swapPhotoBackShuffle_heap :: "nat list \<Rightarrow> heap \<Rightarrow> nat list \<times> heap" where
  "swapPhotoBackShuffle_heap arr h =
     (case copyCards arr h of (updatedCards, h1) \<Rightarrow>
        (case (find (\<lambda>a. position (h1 ! a) = centerBack) updatedCards,
               find (\<lambda>a. position (h1 ! a) = center) updatedCards) of
           (Some centerBackCard, Some centerCard) \<Rightarrow>
             (updatedCards,
              h1[centerBackCard := (h1 ! centerBackCard)\<lparr>currentPhotoIndex :=
                   (if currentPhotoIndex (h1 ! centerCard) = 0
                    then int (length photoImages) - 1
                    else currentPhotoIndex (h1 ! centerCard) - 1)\<rparr>])
         | _ \<Rightarrow> (updatedCards, h1)))"

definition deref :: "heap \<Rightarrow> nat list \<Rightarrow> Card list" where
  "deref h arr = map (\<lambda>a. h ! a) arr"

definition wellFormed :: "heap \<Rightarrow> nat list \<Rightarrow> bool" where
  "wellFormed h arr = list_all (\<lambda>a. a < length h) arr"


definition frameOf :: "Card \<Rightarrow> CardId \<times> Position \<times> int" where
  "frameOf c = (cardId c, position c, zIndex c)"

section \<open>The collage controller (PhotoCollage component)\<close>

text \<open>
  The shuffle engine (\<open>CardShuffleLogic\<close>) is imported by the component and is not among
  the sources. The handlers below take the module as a parameter: what is proved of them
  holds for every engine.
\<close>

record ShuffleResult =
  cardsWithOldZIndex :: "Card list"
  cardsWithNewZIndex :: "Card list"
  animationStates_result :: "CardId \<Rightarrow> AnimationState"

record ForwardShuffleResult = ShuffleResult +
  flyingCardId :: CardId

record CardShuffleLogic =
  initializeCards :: "Card list"
  executeForwardShuffle :: "Card list \<Rightarrow> ForwardShuffleResult"
  executeBackwardShuffle :: "Card list \<Rightarrow> ShuffleResult"

text \<open>
  A callback handed to \<open>setTimeout\<close>, with the values its closure captured. \<open>Unlock\<close>
  releases both lock fields; \<open>CommitCards\<close> is \<open>setCards(shuffleResult.cardsWithNewZIndex)\<close>;
  \<open>SwapPhoto\<close> is the forward shuffle's last callback, which sets the cards to
  \<open>swapPhotoOnCardID(flyingCardId, cardsWithNewZIndex)\<close>.
\<close>

datatype Callback = Unlock | CommitCards "Card list" | SwapPhoto CardId "Card list"

record Timer =
  due :: nat
  callback :: Callback

text \<open>
  The component's state: its \<open>useState\<close> and \<open>useRef\<close> cells (the two button-animation
  flags, which only the buttons read, are left out), the clock in milliseconds and the
  pending timers in the order they were registered. A state setter takes effect at once:
  the component is rendered again before the next event is handled, so a handler's
  closure holds the current state.
\<close>

record Controller =
  isInView :: bool
  cards :: "Card list"
  hasCompletedEntrance :: bool
  buttonsDisabled :: bool
  isAnimatingRef :: bool
  animationStates :: "CardId \<Rightarrow> AnimationState"
  touchStartX :: real
  touchStartY :: real
  now :: nat
  timers :: "Timer list"

definition SHUFFLE_DELAY :: nat where
  "SHUFFLE_DELAY = 300"

definition mount :: "CardShuffleLogic \<Rightarrow> Controller" where
  "mount L =
     \<lparr>isInView = False, cards = initializeCards L, hasCompletedEntrance = False,
      buttonsDisabled = False, isAnimatingRef = False,
      animationStates = (\<lambda>_. OFFSCREEN), touchStartX = 0, touchStartY = 0,
      now = 0, timers = []\<rparr>"

definition setTimeout :: "Callback \<Rightarrow> nat \<Rightarrow> Controller \<Rightarrow> Controller" where
  "setTimeout cb delay s = s\<lparr>timers := timers s @ [\<lparr>due = now s + delay, callback = cb\<rparr>]\<rparr>"

definition handleForwardShuffle :: "CardShuffleLogic \<Rightarrow> Controller \<Rightarrow> Controller" where
  "handleForwardShuffle L s =
     (if isAnimatingRef s \<or> buttonsDisabled s then s
      else
        let s1 = s\<lparr>isAnimatingRef := True\<rparr>;
            delay = SHUFFLE_DELAY + 100;
            s2 = s1\<lparr>buttonsDisabled := True\<rparr>;
            s3 = setTimeout Unlock delay s2;
            shuffleResult = executeForwardShuffle L (cards s);
            s4 = s3\<lparr>cards := cardsWithOldZIndex shuffleResult\<rparr>;
            s5 = s4\<lparr>animationStates := animationStates_result shuffleResult\<rparr>;
            s6 = setTimeout (CommitCards (cardsWithNewZIndex shuffleResult)) SHUFFLE_DELAY s5
        in setTimeout
             (SwapPhoto (flyingCardId shuffleResult) (cardsWithNewZIndex shuffleResult))
             delay s6)"

definition handleBackwardShuffle :: "CardShuffleLogic \<Rightarrow> Controller \<Rightarrow> Controller" where
  "handleBackwardShuffle L s =
     (if isAnimatingRef s \<or> buttonsDisabled s then s
      else
        let s1 = s\<lparr>isAnimatingRef := True\<rparr>;
            delay = SHUFFLE_DELAY;
            s2 = s1\<lparr>buttonsDisabled := True\<rparr>;
            s3 = setTimeout Unlock delay s2;
            cardsWithUpdatedPhoto = swapPhotoBackShuffle (cards s);
            shuffleResult = executeBackwardShuffle L cardsWithUpdatedPhoto;
            s4 = s3\<lparr>cards := cardsWithOldZIndex shuffleResult\<rparr>;
            s5 = s4\<lparr>animationStates := animationStates_result shuffleResult\<rparr>
        in setTimeout (CommitCards (cardsWithNewZIndex shuffleResult)) (delay div 2) s5)"

definition handleTouchStart :: "real \<Rightarrow> real \<Rightarrow> Controller \<Rightarrow> Controller" where
  "handleTouchStart x y s = s\<lparr>touchStartX := x, touchStartY := y\<rparr>"

definition handleTouchEnd :: "CardShuffleLogic \<Rightarrow> real \<Rightarrow> real \<Rightarrow> Controller \<Rightarrow> Controller" where
  "handleTouchEnd L touchEndX touchEndY s =
     (if \<not> hasCompletedEntrance s \<or> isAnimatingRef s \<or> buttonsDisabled s then s
      else
        let deltaX = touchEndX - touchStartX s;
            deltaY = touchEndY - touchStartY s;
            minSwipeDistance = 50
        in if \<bar>deltaX\<bar> > \<bar>deltaY\<bar> \<and> \<bar>deltaX\<bar> > minSwipeDistance then
             (if deltaX > 0 then handleBackwardShuffle L s else handleForwardShuffle L s)
           else s)"

text \<open>
  The entrance effect depends on \<open>isInView\<close> and \<open>hasCompletedEntrance\<close>: it runs again
  after every change of one of them. \<open>setIsInView(true)\<close> on a widget already in view
  changes nothing, and neither does \<open>setIsInView(false)\<close> on one out of view.
\<close>

definition entranceEffect :: "Controller \<Rightarrow> Controller" where
  "entranceEffect s =
     (if isInView s \<and> \<not> hasCompletedEntrance s
      then s\<lparr>animationStates := (\<lambda>_. ONSCREEN)\<rparr> else s)"

definition onViewportEnter :: "Controller \<Rightarrow> Controller" where
  "onViewportEnter s = (if isInView s then s else entranceEffect (s\<lparr>isInView := True\<rparr>))"

definition onViewportLeave :: "Controller \<Rightarrow> Controller" where
  "onViewportLeave s = (if isInView s then entranceEffect (s\<lparr>isInView := False\<rparr>) else s)"

definition onAnimationComplete :: "Card \<Rightarrow> AnimationState \<Rightarrow> Controller \<Rightarrow> Controller" where
  "onAnimationComplete theCard definition s =
     (let s1 = (if definition = ONSCREEN \<and> zIndex theCard = 5 \<and> \<not> hasCompletedEntrance s
                then entranceEffect
                       (s\<lparr>hasCompletedEntrance := True,
                          animationStates := (\<lambda>_. MOVE_TO_POSITION)\<rparr>)
                else s)
      in if definition = FLY_LEFT \<or> definition = FLY_RIGHT
         then s1\<lparr>animationStates := (animationStates s1)(cardId theCard := MOVE_TO_POSITION)\<rparr>
         else s1)"

text \<open>
  Timers run in the order of their due times, and in the order of registration when the
  due times are equal; none runs before it is due, and any may run late.
\<close>

definition runCallback :: "Callback \<Rightarrow> Controller \<Rightarrow> Controller" where
  "runCallback cb s =
     (case cb of
        Unlock \<Rightarrow> s\<lparr>buttonsDisabled := False, isAnimatingRef := False\<rparr>
      | CommitCards cs \<Rightarrow> s\<lparr>cards := cs\<rparr>
      | SwapPhoto flying cs \<Rightarrow> s\<lparr>cards := swapPhotoOnCardID flying cs\<rparr>)"

fun earliest :: "Timer list \<Rightarrow> Timer option" where
  "earliest [] = None"
| "earliest (t # ts) =
     (case earliest ts of
        None \<Rightarrow> Some t
      | Some m \<Rightarrow> if due t \<le> due m then Some t else Some m)"

definition fireTimer :: "Controller \<Rightarrow> Controller" where
  "fireTimer s =
     (case earliest (timers s) of
        None \<Rightarrow> s
      | Some t \<Rightarrow>
          if due t \<le> now s then runCallback (callback t) (s\<lparr>timers := remove1 t (timers s)\<rparr>)
          else s)"

text \<open>
  The events of the component. A shuffle request is a call of the handler itself; the
  rendering layer reports the completion of a card's animation only for a card that is
  rendered and for the animation state that card is in.
\<close>

datatype Event =
    ViewportEnter
  | ViewportLeave
  | TouchStart real real
  | TouchEnd real real
  | ForwardShuffleRequested
  | BackwardShuffleRequested
  | AnimationComplete Card AnimationState
  | Elapse nat
  | TimerFires

definition step :: "CardShuffleLogic \<Rightarrow> Event \<Rightarrow> Controller \<Rightarrow> Controller" where
  "step L e s =
     (case e of
        ViewportEnter \<Rightarrow> onViewportEnter s
      | ViewportLeave \<Rightarrow> onViewportLeave s
      | TouchStart x y \<Rightarrow> handleTouchStart x y s
      | TouchEnd x y \<Rightarrow> handleTouchEnd L x y s
      | ForwardShuffleRequested \<Rightarrow> handleForwardShuffle L s
      | BackwardShuffleRequested \<Rightarrow> handleBackwardShuffle L s
      | AnimationComplete theCard definition \<Rightarrow>
          (if theCard \<in> set (cards s) \<and> animationStates s (cardId theCard) = definition
           then onAnimationComplete theCard definition s else s)
      | Elapse n \<Rightarrow> s\<lparr>now := now s + n\<rparr>
      | TimerFires \<Rightarrow> fireTimer s)"

definition run :: "CardShuffleLogic \<Rightarrow> Event list \<Rightarrow> Controller \<Rightarrow> Controller" where
  "run L es s = foldl (\<lambda>s e. step L e s) s es"

inductive reachable :: "CardShuffleLogic \<Rightarrow> Controller \<Rightarrow> bool" for L where
  reachable_mount: "reachable L (mount L)"
| reachable_step: "reachable L s \<Longrightarrow> reachable L (step L e s)"

definition locked :: "Controller \<Rightarrow> bool" where
  "locked s = (isAnimatingRef s \<or> buttonsDisabled s)"

definition isCommit :: "Timer \<Rightarrow> bool" where
  "isCommit t = (case callback t of CommitCards cs \<Rightarrow> True | _ \<Rightarrow> False)"

definition isUnlock :: "Timer \<Rightarrow> bool" where
  "isUnlock t = (callback t = Unlock)"

fun entranceFlips :: "CardShuffleLogic \<Rightarrow> Event list \<Rightarrow> Controller \<Rightarrow> nat" where
  "entranceFlips L [] s = 0"
| "entranceFlips L (e # es) s =
     (if \<not> hasCompletedEntrance s \<and> hasCompletedEntrance (step L e s) then 1 else 0)
       + entranceFlips L es (step L e s)"

section \<open>The shuffle engine, from the specification\<close>

text \<open>
  Modelled from the spec: the slot table of \<open>getPositionConfig\<close> (module \<open>Card\<close>, not among
  the sources), of which only the base z-index is used here. The specification's scenario
  lists the slots front, centerBack, left1, left2, right1, right2 with z-indices
  5, 4, 3, 2, 1, 0; the component itself calls 5 the highest z-index and guards the
  entrance delay for z-index 0. Which slot holds which of the six values bears on no
  statement below, only that they are these six.
\<close>

fun baseZIndex :: "Position \<Rightarrow> int" where
  "baseZIndex center = 5"
| "baseZIndex centerBack = 4"
| "baseZIndex left1 = 3"
| "baseZIndex left2 = 2"
| "baseZIndex right1 = 1"
| "baseZIndex right2 = 0"

text \<open>
  Modelled from the spec: the rotation of \<open>executeForwardShuffle\<close> (module
  \<open>CardShuffleLogic\<close>, not among the sources), one cycle through the six slots. The
  backward shuffle brings the card of \<open>centerBack\<close> to the front and undoes the forward
  one, so the forward rotation sends \<open>center\<close> to \<open>centerBack\<close>; the order of the other
  four slots in the cycle is not fixed by the specification and is taken in the order it
  lists them.
\<close>

fun nextPosition :: "Position \<Rightarrow> Position" where
  "nextPosition center = centerBack"
| "nextPosition centerBack = left1"
| "nextPosition left1 = left2"
| "nextPosition left2 = right1"
| "nextPosition right1 = right2"
| "nextPosition right2 = center"

text \<open>
  Modelled from the spec: the rotation of \<open>executeBackwardShuffle\<close> (module
  \<open>CardShuffleLogic\<close>, not among the sources), the reverse of the forward rotation.
\<close>

fun previousPosition :: "Position \<Rightarrow> Position" where
  "previousPosition centerBack = center"
| "previousPosition left1 = centerBack"
| "previousPosition left2 = left1"
| "previousPosition right1 = left2"
| "previousPosition right2 = right1"
| "previousPosition center = right2"

text \<open>
  Modelled from the spec: the slot reassignment of the shuffle engine (module
  \<open>CardShuffleLogic\<close>, not among the sources). Every card moves one slot along the
  rotation and keeps its identifier, z-index and photo index.
\<close>

definition moveCards :: "(Position \<Rightarrow> Position) \<Rightarrow> Card list \<Rightarrow> Card list" where
  "moveCards f cs = map (\<lambda>c. c\<lparr>position := f (position c)\<rparr>) cs"

text \<open>
  Modelled from the spec: the post-shuffle z-order of the shuffle engine (module
  \<open>CardShuffleLogic\<close>, not among the sources). Every card takes the base z-index of the
  slot it is in.
\<close>

definition restack :: "Card list \<Rightarrow> Card list" where
  "restack cs = map (\<lambda>c. c\<lparr>zIndex := baseZIndex (position c)\<rparr>) cs"

text \<open>
  Modelled from the spec: how the shuffle engine (module \<open>CardShuffleLogic\<close>, not among
  the sources) determines the card that flies, the card currently in a given slot. The
  specification excludes an assignment with no card in that slot; there the first
  identifier is returned.
\<close>

definition cardIn :: "Position \<Rightarrow> Card list \<Rightarrow> CardId" where
  "cardIn p cs = (case find (\<lambda>c. position c = p) cs of Some c \<Rightarrow> cardId c | None \<Rightarrow> CARD_A)"

text \<open>
  Modelled from the spec: \<open>executeForwardShuffle\<close> of module \<open>CardShuffleLogic\<close>, which is
  not among the sources. The card of the front slot flies off to the left and every card
  advances one slot; the first array has the z-indices the cards had before the shuffle,
  the second the z-indices after it; the identifier of the flying card is returned.
\<close>

definition executeForwardShuffle_spec :: "Card list \<Rightarrow> ForwardShuffleResult" where
  "executeForwardShuffle_spec cs =
     \<lparr>cardsWithOldZIndex = moveCards nextPosition cs,
      cardsWithNewZIndex = restack (moveCards nextPosition cs),
      animationStates_result =
        (\<lambda>i. if i = cardIn center cs then FLY_LEFT else MOVE_TO_POSITION),
      flyingCardId = cardIn center cs\<rparr>"

text \<open>
  Modelled from the spec: \<open>executeBackwardShuffle\<close> of module \<open>CardShuffleLogic\<close>, which is
  not among the sources. The mirror operation: the card of \<open>centerBack\<close> flies in from the
  right into the front slot and every card retreats one slot.
\<close>

definition executeBackwardShuffle_spec :: "Card list \<Rightarrow> ShuffleResult" where
  "executeBackwardShuffle_spec cs =
     \<lparr>cardsWithOldZIndex = moveCards previousPosition cs,
      cardsWithNewZIndex = restack (moveCards previousPosition cs),
      animationStates_result =
        (\<lambda>i. if i = cardIn centerBack cs then FLY_RIGHT else MOVE_TO_POSITION)\<rparr>"

text \<open>
  Modelled from the spec: \<open>initializeCards\<close> of module \<open>CardShuffleLogic\<close>, which is not
  among the sources. The six cards start in the six slots with the base z-indices of
  their slots. The specification gives no initial photo indices: the k-th card starts at
  photo k.
\<close>

definition initializeCards_spec :: "Card list" where
  "initializeCards_spec =
     [\<lparr>cardId = CARD_A, position = center, zIndex = 5, currentPhotoIndex = 0\<rparr>,
      \<lparr>cardId = CARD_B, position = centerBack, zIndex = 4, currentPhotoIndex = 1\<rparr>,
      \<lparr>cardId = CARD_C, position = left1, zIndex = 3, currentPhotoIndex = 2\<rparr>,
      \<lparr>cardId = CARD_D, position = left2, zIndex = 2, currentPhotoIndex = 3\<rparr>,
      \<lparr>cardId = CARD_E, position = right1, zIndex = 1, currentPhotoIndex = 4\<rparr>,
      \<lparr>cardId = CARD_F, position = right2, zIndex = 0, currentPhotoIndex = 5\<rparr>]"

text \<open>
  Modelled from the spec: module \<open>CardShuffleLogic\<close>, which is not among the sources, as the
  three operations above.
\<close>

definition specShuffleLogic :: CardShuffleLogic where
  "specShuffleLogic =
     \<lparr>initializeCards = initializeCards_spec,
      executeForwardShuffle = executeForwardShuffle_spec,
      executeBackwardShuffle = executeBackwardShuffle_spec\<rparr>"

text \<open>
  The stacking of six cards: six cards with six identifiers in six slots, and z-indices
  that are the six values of the slot table.
\<close>

definition validCards :: "Card list \<Rightarrow> bool" where
  "validCards cs =
     (length cs = 6 \<and> distinct (map cardId cs) \<and> distinct (map position cs) \<and>
      distinct (map zIndex cs) \<and> set (map zIndex cs) = {0..5})"

definition capturedCards :: "Callback \<Rightarrow> Card list option" where
  "capturedCards cb =
     (case cb of Unlock \<Rightarrow> None | CommitCards cs \<Rightarrow> Some cs | SwapPhoto i cs \<Rightarrow> Some cs)"

text \<open>
  What the lock guarantees of the pending timers: both lock fields agree; one unlock is
  pending while the lock is held and none otherwise; every pending commit of a z-order is
  due strictly before the pending unlock; and no commit is pending while the lock is free.
\<close>

definition lockInvariant :: "Controller \<Rightarrow> bool" where
  "lockInvariant s =
     (isAnimatingRef s = buttonsDisabled s \<and>
      length (filter isUnlock (timers s)) = (if locked s then 1 else 0) \<and>
      (\<forall>u \<in> set (timers s). \<forall>c \<in> set (timers s).
          isUnlock u \<and> isCommit c \<longrightarrow> due c < due u) \<and>
      (\<not> locked s \<longrightarrow> filter isCommit (timers s) = []))"


text \<open>
  The stacking holds of the cards on screen and of every array a pending callback has
  captured.
\<close>

definition stackingInvariant :: "Controller \<Rightarrow> bool" where
  "stackingInvariant s =
     (validCards (cards s) \<and>
      list_all (\<lambda>t. case capturedCards (callback t) of None \<Rightarrow> True | Some cs \<Rightarrow> validCards cs)
        (timers s))"

text \<open>
  Before the widget has entered the viewport: it is not in view, the entrance has not
  completed, and no card is in the \<open>ONSCREEN\<close> state.
\<close>

definition notEntered :: "Controller \<Rightarrow> bool" where
  "notEntered s =
     (\<not> isInView s \<and> \<not> hasCompletedEntrance s \<and>
      list_all (\<lambda>i. animationStates s i \<noteq> ONSCREEN)
        [CARD_A, CARD_B, CARD_C, CARD_D, CARD_E, CARD_F])"

lemma length_photoImages: "length photoImages = 12"
  by (simp add: photoImages_def)

section \<open>The photo provider: results\<close>

declare natToString.simps [simp del]

declare bitLength.simps [simp del]

lemma digitValue_digitChar: "d < 10 \<Longrightarrow> digitValue (digitChar d) = d"
proof -
  assume "d < 10"
  then have "d = 0 \<or> d = 1 \<or> d = 2 \<or> d = 3 \<or> d = 4 \<or> d = 5 \<or> d = 6 \<or> d = 7 \<or> d = 8 \<or> d = 9"
    by arith
  then show ?thesis
    by (elim disjE) (simp_all add: digitValue_def digitChar_def)
qed

lemma isDigit_digitChar: "isDigit (digitChar d)"
proof -
  have "d mod 10 < length ''0123456789''" by simp
  then have "''0123456789'' ! (d mod 10) \<in> set ''0123456789''" by (rule nth_mem)
  then show ?thesis by (simp only: isDigit_def digitChar_def)
qed

lemma decimalValue_snoc: "decimalValue (s @ [c]) = 10 * decimalValue s + digitValue c"
  by (simp add: decimalValue_def)

lemma decimalValue_natToString: "decimalValue (natToString n) = n"
proof (induction n rule: natToString.induct)
  case (1 n)
  show ?case
  proof (cases "n < 10")
    case True
    then show ?thesis
      by (simp add: natToString.simps [of n] decimalValue_def digitValue_digitChar)
  next
    case False
    then have "decimalValue (natToString (n div 10)) = n div 10" using 1 by simp
    then show ?thesis using False
      by (simp add: natToString.simps [of n] decimalValue_snoc digitValue_digitChar)
  qed
qed

lemma digits_natToString: "list_all isDigit (natToString n)"
proof (induction n rule: natToString.induct)
  case (1 n)
  then show ?case
    by (cases "n < 10") (simp_all add: natToString.simps [of n] isDigit_digitChar)
qed

lemma natToString_nonempty: "natToString n \<noteq> []"
  by (simp add: natToString.simps [of n])

lemma length_natToString_ge2: "10 \<le> n \<Longrightarrow> 2 \<le> length (natToString n)"
  using natToString_nonempty [of "n div 10"]
  by (cases "natToString (n div 10)") (simp_all add: natToString.simps [of n])

lemma decimalValue_zeros: "decimalValue (replicate k (CHR ''0'') @ s) = decimalValue s"
proof -
  have "foldl (\<lambda>acc c. 10 * acc + digitValue c) 0 (replicate k (CHR ''0'')) = 0"
    by (induction k) (simp_all add: digitValue_def)
  then show ?thesis by (simp add: decimalValue_def)
qed

lemma decimalValue_padStart: "decimalValue (padStart k (CHR ''0'') s) = decimalValue s"
  by (simp add: padStart_def decimalValue_zeros)

lemma length_padStart: "length (padStart k c s) = max k (length s)"
  by (simp add: padStart_def)

lemma digits_padStart: "list_all isDigit s \<Longrightarrow> list_all isDigit (padStart k (CHR ''0'') s)"
  by (simp add: padStart_def isDigit_def list_all_iff)

lemma length_natToString_le: "0 < k \<Longrightarrow> n < 10 ^ k \<Longrightarrow> length (natToString n) \<le> k"
proof (induction k arbitrary: n)
  case 0
  then show ?case by simp
next
  case (Suc k)
  show ?case
  proof (cases "n < 10")
    case True
    then show ?thesis by (simp add: natToString.simps [of n])
  next
    case False
    with Suc.prems have pos: "0 < k" by (cases k) simp_all
    from Suc.prems have "n div 10 < 10 ^ k" by (simp add: less_mult_imp_div_less mult.commute)
    with pos have "length (natToString (n div 10)) \<le> k" by (rule Suc.IH)
    with False show ?thesis by (simp add: natToString.simps [of n])
  qed
qed

lemma numberToString_exact:
  assumes "0 \<le> i" and "i \<le> 2 ^ 53"
  shows "numberToString i = natToString (nat i)"
proof -
  from assms have small: "nat i \<le> 2 ^ 53" by (simp add: nat_le_iff)
  then have "nat i < 10 ^ 16" by simp
  then have "length (natToString (nat i)) \<le> 16" by (intro length_natToString_le) simp_all
  then have "formatDecimal (nat i) = natToString (nat i)" by (simp add: formatDecimal_def Let_def)
  with small assms(1) show ?thesis by (simp add: numberToString_def shortestDecimal_def)
qed

lemma jsAdd_exact:
  assumes "0 \<le> i" and "i < 2 ^ 53"
  shows "jsAdd i 1 = i + 1"
proof -
  from assms have "nat (i + 1) \<le> 2 ^ 53" by (simp add: nat_le_iff)
  with assms(1) show ?thesis by (simp add: jsAdd_def toDouble_def roundToDouble_def)
qed

text \<open>
  Claim C8, as amended. For every index from the gallery size (12) up to, and not
  including, \<open>2 ^ 53\<close>, \<open>getPhotoData\<close> throws nothing and returns a synthesised datum:
  title and demo number are made from \<open>index + 1\<close>, and the footer is \<open>DEMO-\<close> followed by
  the decimal digits of \<open>index + 1\<close> padded with zeros on the left to three characters
  (digits only, at least three of them, denoting \<open>index + 1\<close>).
\<close>

theorem getPhotoData_fallback:
  assumes "int (length photoImages) \<le> index" and "index < 2 ^ 53"
  shows "getPhotoData index =
           Inr \<lparr>path = None,
                title = ''Photo #'' @ natToString (nat (index + 1)) @ '', Norman, Okla.'',
                footer = ''DEMO-'' @ padStart 3 (CHR ''0'') (natToString (nat (index + 1))),
                demoNumber = Some (index + 1)\<rparr>
         \<and> list_all isDigit (padStart 3 (CHR ''0'') (natToString (nat (index + 1))))
         \<and> length (padStart 3 (CHR ''0'') (natToString (nat (index + 1))))
             = max 3 (length (natToString (nat (index + 1))))
         \<and> int (decimalValue (padStart 3 (CHR ''0'') (natToString (nat (index + 1))))) = index + 1
         \<and> int (decimalValue (natToString (nat (index + 1)))) = index + 1"
proof -
  from assms have nonneg: "0 \<le> index" by simp
  have sum: "jsAdd index 1 = index + 1" using nonneg assms(2) by (rule jsAdd_exact)
  have "numberToString (index + 1) = natToString (nat (index + 1))"
    using nonneg assms(2) by (intro numberToString_exact) simp_all
  with sum have "getPhotoData index =
           Inr \<lparr>path = None,
                title = ''Photo #'' @ natToString (nat (index + 1)) @ '', Norman, Okla.'',
                footer = ''DEMO-'' @ padStart 3 (CHR ''0'') (natToString (nat (index + 1))),
                demoNumber = Some (index + 1)\<rparr>"
    using assms(1) by (simp add: getPhotoData_def)
  moreover have "list_all isDigit (padStart 3 (CHR ''0'') (natToString (nat (index + 1))))"
    by (rule digits_padStart) (rule digits_natToString)
  moreover have "int (decimalValue (natToString (nat (index + 1)))) = index + 1"
    using nonneg by (simp add: decimalValue_natToString)
  ultimately show ?thesis
    by (simp add: length_padStart decimalValue_padStart)
qed

theorem getPhotoData_fallback_witness:
  "int (length photoImages) \<le> 12 \<and>
   getPhotoData 12 =
     Inr \<lparr>path = None, title = ''Photo #13, Norman, Okla.'', footer = ''DEMO-013'',
          demoNumber = Some 13\<rparr> \<and>
   getPhotoData 1233 =
     Inr \<lparr>path = None, title = ''Photo #1234, Norman, Okla.'', footer = ''DEMO-1234'',
          demoNumber = Some 1234\<rparr>"
  using getPhotoData_fallback [of 12] getPhotoData_fallback [of 1233]
  by (simp add: length_photoImages padStart_def natToString.simps digitChar_def)

lemma bitLength_numeral [simp]:
  "bitLength (numeral n) = Suc (bitLength (numeral n div 2))"
  by (simp add: bitLength.simps [of "numeral n"])

lemma bitLength_0 [simp]: "bitLength 0 = 0"
  by (simp add: bitLength.simps [of 0])

lemma bitLength_1 [simp]: "bitLength (Suc 0) = Suc 0"
  by (simp add: bitLength.simps [of "Suc 0"])

lemma bitLength_at_2_53: "bitLength 9007199254740993 = 54"
  by simp

lemma bitLength_at_10_21: "bitLength 1000000000000000000001 = 70"
  "bitLength 1000000000000000000000 = 70" "bitLength 2000000000000000000000 = 71"
  by simp_all

lemma jsAdd_at_2_53: "jsAdd 9007199254740992 1 = 9007199254740992"
  by (simp add: jsAdd_def toDouble_def roundToDouble_def Let_def bitLength_at_2_53
      del: bitLength_numeral)

lemma jsAdd_at_10_21: "jsAdd 1000000000000000000000 1 = 1000000000000000000000"
  by (simp add: jsAdd_def toDouble_def roundToDouble_def Let_def bitLength_at_10_21
      del: bitLength_numeral)

lemma numberToString_at_2_53: "numberToString 9007199254740992 = ''9007199254740992''"
proof -
  have "numberToString 9007199254740992 = natToString (nat 9007199254740992)"
    by (rule numberToString_exact) simp_all
  then show ?thesis by (simp add: natToString.simps digitChar_def)
qed

lemma numberToString_at_10_21: "numberToString 1000000000000000000000 = ''1e+21''"
proof -
  have digits: "natToString 1000000000000000000000 = ''1000000000000000000000''"
    by (simp add: natToString.simps digitChar_def)
  have "candidate 1 1000000000000000000000 = Some 1000000000000000000000"
    unfolding One_nat_def [symmetric]
    by (simp add: candidate_def digits roundToDouble_def Let_def bitLength_at_10_21
        del: bitLength_numeral)
  then have "shortestFrom (Suc 16) 1 1000000000000000000000 = 1000000000000000000000"
    by (simp only: shortestFrom.simps option.case)
  moreover have "shortestFrom 17 1 1000000000000000000000
      = shortestFrom (Suc 16) 1 1000000000000000000000" by simp
  ultimately have "shortestFrom 17 1 1000000000000000000000 = 1000000000000000000000"
    by (simp only:)
  then have "shortestDecimal 1000000000000000000000 = 1000000000000000000000"
    by (simp add: shortestDecimal_def)
  then show ?thesis
    by (simp add: numberToString_def formatDecimal_def digits stripTrailingZeros_def Let_def
        natToString.simps digitChar_def)
qed

text \<open>
  Claim C8, as stated for every index from 12 upwards, fails from \<open>2 ^ 53\<close> on. At
  \<open>2 ^ 53 = 9007199254740992\<close> the sum \<open>index + 1\<close> is rounded back to \<open>index\<close>, so title,
  footer and demo number are made from \<open>index\<close>; at \<open>10 ^ 21\<close> the same happens and the
  number is printed in exponent notation, so the footer's numeric part is not a digit
  string.
\<close>

theorem getPhotoData_fallback_counterexample:
  "getPhotoData 9007199254740992 =
     Inr \<lparr>path = None, title = ''Photo #9007199254740992, Norman, Okla.'',
          footer = ''DEMO-9007199254740992'', demoNumber = Some 9007199254740992\<rparr>
   \<and> getPhotoData 1000000000000000000000 =
     Inr \<lparr>path = None, title = ''Photo #1e+21, Norman, Okla.'',
          footer = ''DEMO-1e+21'', demoNumber = Some 1000000000000000000000\<rparr>"
  by (simp add: getPhotoData_def length_photoImages jsAdd_at_2_53 jsAdd_at_10_21
      numberToString_at_2_53 numberToString_at_10_21 padStart_def)

text \<open>
  Claim C9. A negative index makes \<open>getPhotoData\<close> throw its invalid-index error, and an
  index that is not negative never does: the error branch is a guard that a caller
  supplying only non-negative indices cannot reach.
\<close>

theorem getPhotoData_error:
  "(index < 0 \<longrightarrow>
      getPhotoData index =
        Inl (Error (''Invalid card index: '' @ numberToString index @ ''. Must be >= 0'')))
   \<and> (0 \<le> index \<longrightarrow> (\<exists>d. getPhotoData index = Inr d))"
  by (simp add: getPhotoData_def)

theorem getPhotoData_error_witness:
  "getPhotoData (- 1) = Inl (Error ''Invalid card index: -1. Must be >= 0'')
   \<and> (\<exists>d. getPhotoData 0 = Inr d) \<and> (\<exists>d. getPhotoData 40 = Inr d)"
  using getPhotoData_error [of "- 1"] getPhotoData_error [of 0] getPhotoData_error [of 40]
  by (simp add: numberToString_def shortestDecimal_def formatDecimal_def Let_def
      natToString.simps digitChar_def)

section \<open>The photo-swap helpers: results\<close>

lemma length_updateFirst: "length (updateFirst p f xs) = length xs"
  by (induction xs) simp_all

lemma map_updateFirst: "(\<And>x. g (f x) = g x) \<Longrightarrow> map g (updateFirst p f xs) = map g xs"
  by (induction xs) simp_all

lemma nth_updateFirst_other:
  "k < length xs \<Longrightarrow> \<not> p (xs ! k) \<Longrightarrow> updateFirst p f xs ! k = xs ! k"
proof (induction xs arbitrary: k)
  case Nil
  then show ?case by simp
next
  case (Cons x xs)
  then show ?case by (cases k) auto
qed

lemma find_updateFirst_same:
  "(\<And>x. p x \<Longrightarrow> p (f x)) \<Longrightarrow> find p (updateFirst p f xs) = map_option f (find p xs)"
  by (induction xs) simp_all


lemma updateFirst_no_match: "find p xs = None \<Longrightarrow> updateFirst p f xs = xs"
  by (induction xs) (auto split: if_splits)

lemma updateFirst_cong_first:
  "find p xs = Some a \<Longrightarrow> f a = g a \<Longrightarrow> updateFirst p f xs = updateFirst p g xs"
proof (induction xs)
  case Nil
  then show ?case by simp
next
  case (Cons x xs)
  show ?case
  proof (cases "p x")
    case True
    with Cons.prems have "x = a" by simp
    with True Cons.prems show ?thesis by simp
  next
    case False
    with Cons.prems have "find p xs = Some a" by simp
    with Cons.IH Cons.prems have "updateFirst p f xs = updateFirst p g xs" by blast
    with False show ?thesis by simp
  qed
qed

lemma swapPhotoOnCardID_eq:
  "swapPhotoOnCardID t cs =
     updateFirst (\<lambda>c. cardId c = t)
       (\<lambda>c. c\<lparr>currentPhotoIndex :=
                jsRemainder (currentPhotoIndex c + 6) (int (length photoImages))\<rparr>) cs"
proof (cases "find (\<lambda>c. cardId c = t) cs")
  case None
  then have "swapPhotoOnCardID t cs = cs"
    by (simp add: swapPhotoOnCardID_def)
  with None show ?thesis by (simp only: updateFirst_no_match)
next
  case (Some tc)
  then have "swapPhotoOnCardID t cs =
     updateFirst (\<lambda>c. cardId c = t)
       (\<lambda>c. c\<lparr>currentPhotoIndex :=
                jsRemainder (currentPhotoIndex tc + 6) (int (length photoImages))\<rparr>) cs"
    by (simp add: swapPhotoOnCardID_def)
  also have "\<dots> = updateFirst (\<lambda>c. cardId c = t)
       (\<lambda>c. c\<lparr>currentPhotoIndex :=
                jsRemainder (currentPhotoIndex c + 6) (int (length photoImages))\<rparr>) cs"
    by (rule updateFirst_cong_first [OF Some]) (rule refl)
  finally show ?thesis .
qed

lemma frame_swapPhotoOnCardID: "map frameOf (swapPhotoOnCardID t cs) = map frameOf cs"
  unfolding swapPhotoOnCardID_eq by (rule map_updateFirst) (simp add: frameOf_def)

lemma swapPhotoBackShuffle_eq:
  "swapPhotoBackShuffle cs =
     (case find (\<lambda>c. position c = center) cs of
        None \<Rightarrow> cs
      | Some centerCard \<Rightarrow>
          updateFirst (\<lambda>c. position c = centerBack)
            (\<lambda>c. c\<lparr>currentPhotoIndex :=
                   (if currentPhotoIndex centerCard = 0 then int (length photoImages) - 1
                    else currentPhotoIndex centerCard - 1)\<rparr>) cs)"
proof (cases "find (\<lambda>c. position c = centerBack) cs")
  case None
  then show ?thesis
    by (simp add: swapPhotoBackShuffle_def updateFirst_no_match split: option.split)
next
  case (Some a)
  then show ?thesis
    by (simp add: swapPhotoBackShuffle_def split: option.split)
qed

lemma frame_swapPhotoBackShuffle: "map frameOf (swapPhotoBackShuffle cs) = map frameOf cs"
proof (cases "find (\<lambda>c. position c = center) cs")
  case None
  then show ?thesis by (simp add: swapPhotoBackShuffle_eq)
next
  case (Some centerCard)
  have "map frameOf (updateFirst p (\<lambda>c. c\<lparr>currentPhotoIndex := v\<rparr>) cs) = map frameOf cs"
    for p v
    by (rule map_updateFirst) (simp add: frameOf_def)
  then show ?thesis using Some by (simp add: swapPhotoBackShuffle_eq)
qed

lemma others_swapPhotoOnCardID:
  "k < length cs \<Longrightarrow> cardId (cs ! k) \<noteq> t \<Longrightarrow> swapPhotoOnCardID t cs ! k = cs ! k"
  unfolding swapPhotoOnCardID_eq by (rule nth_updateFirst_other)

lemma others_swapPhotoBackShuffle:
  "k < length cs \<Longrightarrow> position (cs ! k) \<noteq> centerBack \<Longrightarrow> swapPhotoBackShuffle cs ! k = cs ! k"
  by (cases "find (\<lambda>c. position c = center) cs")
    (simp_all add: swapPhotoBackShuffle_eq nth_updateFirst_other)

lemma length_swapPhotoOnCardID: "length (swapPhotoOnCardID t cs) = length cs"
  unfolding swapPhotoOnCardID_eq by (rule length_updateFirst)

lemma length_swapPhotoBackShuffle: "length (swapPhotoBackShuffle cs) = length cs"
  by (cases "find (\<lambda>c. position c = center) cs")
    (simp_all add: swapPhotoBackShuffle_eq length_updateFirst)

lemma map_frame_fields:
  "map frameOf xs = map frameOf ys \<Longrightarrow>
     map cardId xs = map cardId ys \<and> map position xs = map position ys \<and>
     map zIndex xs = map zIndex ys"
proof -
  assume eq: "map frameOf xs = map frameOf ys"
  have "map cardId xs = map fst (map frameOf xs)"
    and "map position xs = map (fst \<circ> snd) (map frameOf xs)"
    and "map zIndex xs = map (snd \<circ> snd) (map frameOf xs)"
    by (simp_all add: frameOf_def comp_def)
  moreover have "map cardId ys = map fst (map frameOf ys)"
    and "map position ys = map (fst \<circ> snd) (map frameOf ys)"
    and "map zIndex ys = map (snd \<circ> snd) (map frameOf ys)"
    by (simp_all add: frameOf_def comp_def)
  ultimately show ?thesis using eq by simp
qed



lemma swapPhotoBackShuffle_centerBack:
  assumes "find (\<lambda>c. position c = center) cs = Some centerCard"
    and "find (\<lambda>c. position c = centerBack) cs = Some centerBackCard"
  shows "find (\<lambda>c. position c = centerBack) (swapPhotoBackShuffle cs) =
           Some (centerBackCard\<lparr>currentPhotoIndex :=
                   (if currentPhotoIndex centerCard = 0 then int (length photoImages) - 1
                    else currentPhotoIndex centerCard - 1)\<rparr>)"
proof -
  have "find (\<lambda>c. position c = centerBack) (updateFirst (\<lambda>c. position c = centerBack) f cs)
          = map_option f (find (\<lambda>c. position c = centerBack) cs)"
    if "\<And>c. position (f c) = position c" for f
    by (rule find_updateFirst_same) (simp add: that)
  then show ?thesis using assms unfolding swapPhotoBackShuffle_def by simp
qed

lemma copyCards_fresh:
  "copyCards arr h = (new, h1) \<Longrightarrow>
     new = [length h ..< length h + length arr] \<and> h1 = h @ deref h arr"
  by (auto simp: copyCards_def deref_def)

lemma deref_append_fresh:
  "deref (h @ xs) [length h ..< length h + length xs] = xs"
  by (rule nth_equalityI) (simp_all add: deref_def nth_append)

lemma find_deref:
  "find p (deref h as) = map_option (\<lambda>a. h ! a) (find (\<lambda>a. p (h ! a)) as)"
  by (induction as) (simp_all add: deref_def)

lemma find_in_set: "find p xs = Some a \<Longrightarrow> a \<in> set xs \<and> p a"
  by (induction xs) (auto split: if_splits)

lemma deref_update_outside: "a \<notin> set as \<Longrightarrow> deref (h[a := v]) as = deref h as"
  by (induction as) (auto simp: deref_def)

lemma deref_update_first:
  "distinct as \<Longrightarrow> list_all (\<lambda>b. b < length h) as \<Longrightarrow> find (\<lambda>a. p (h ! a)) as = Some a \<Longrightarrow>
     deref (h[a := f (h ! a)]) as = updateFirst p f (deref h as)"
proof (induction as)
  case Nil
  then show ?case by simp
next
  case (Cons b bs)
  show ?case
  proof (cases "p (h ! b)")
    case True
    with Cons.prems have ab: "a = b" by simp
    from Cons.prems have "b \<notin> set bs" "b < length h" by simp_all
    then have "deref (h[b := f (h ! b)]) (b # bs) = f (h ! b) # deref h bs"
      using deref_update_outside [of b bs h "f (h ! b)"] by (simp add: deref_def)
    with True ab show ?thesis by (simp add: deref_def)
  next
    case False
    with Cons.prems have fnd: "find (\<lambda>a. p (h ! a)) bs = Some a" by simp
    then have "a \<in> set bs" using find_in_set by fastforce
    with Cons.prems have "a \<noteq> b" by auto
    moreover from Cons.prems fnd Cons.IH
    have "deref (h[a := f (h ! a)]) bs = updateFirst p f (deref h bs)" by simp
    ultimately show ?thesis using False by (simp add: deref_def)
  qed
qed

lemma heap_update_fresh:
  "a < length h \<Longrightarrow> length h \<le> t \<Longrightarrow> (h @ xs)[t := v] ! a = h ! a"
  by (simp add: nth_append)

lemma swapPhotoOnCardID_heap_refines:
  assumes wf: "wellFormed h arr"
    and res: "swapPhotoOnCardID_heap t arr h = (arr', h')"
  shows "arr' = [length h ..< length h + length arr]"
    and "length h' = length h + length arr"
    and "\<forall>a < length h. h' ! a = h ! a"
    and "deref h' arr' = swapPhotoOnCardID t (deref h arr)"
proof -
  let ?new = "[length h ..< length h + length arr]"
  let ?h1 = "h @ deref h arr"
  let ?f = "\<lambda>c. c\<lparr>currentPhotoIndex :=
               jsRemainder (currentPhotoIndex c + 6) (int (length photoImages))\<rparr>"
  have d1: "deref ?h1 ?new = deref h arr"
    using deref_append_fresh [of h "deref h arr"] by (simp add: deref_def)
  have wf1: "list_all (\<lambda>b. b < length ?h1) ?new"
    by (simp add: list_all_iff deref_def)
  show new: "arr' = ?new" using res
    by (auto simp: swapPhotoOnCardID_heap_def copyCards_def split: option.splits)
  show "length h' = length h + length arr" using res
    by (auto simp: swapPhotoOnCardID_heap_def copyCards_def split: option.splits)
  show "\<forall>a < length h. h' ! a = h ! a"
  proof (cases "find (\<lambda>a. cardId (?h1 ! a) = t) ?new")
    case None
    then have "h' = ?h1" using res
      by (simp add: swapPhotoOnCardID_heap_def copyCards_def deref_def)
    then show ?thesis by (simp add: nth_append)
  next
    case (Some a)
    then have h': "h' = ?h1[a := ?f (?h1 ! a)]" using res
      by (simp add: swapPhotoOnCardID_heap_def copyCards_def deref_def)
    from Some have "a \<in> set ?new" using find_in_set by fastforce
    then have "length h \<le> a" by simp
    then show ?thesis unfolding h' by (simp add: nth_append)
  qed
  show "deref h' arr' = swapPhotoOnCardID t (deref h arr)"
  proof (cases "find (\<lambda>a. cardId (?h1 ! a) = t) ?new")
    case None
    then have h': "h' = ?h1" using res
      by (simp add: swapPhotoOnCardID_heap_def copyCards_def deref_def)
    from None have "find (\<lambda>c. cardId c = t) (deref ?h1 ?new) = None"
      by (simp only: find_deref option.map)
    then have "find (\<lambda>c. cardId c = t) (deref h arr) = None" by (simp only: d1)
    then have "swapPhotoOnCardID t (deref h arr) = deref h arr"
      by (simp add: swapPhotoOnCardID_eq updateFirst_no_match)
    then show ?thesis using d1 h' new by simp
  next
    case (Some a)
    then have h': "h' = ?h1[a := ?f (?h1 ! a)]" using res
      by (simp add: swapPhotoOnCardID_heap_def copyCards_def deref_def)
    have "deref (?h1[a := ?f (?h1 ! a)]) ?new = updateFirst (\<lambda>c. cardId c = t) ?f (deref ?h1 ?new)"
      by (rule deref_update_first [OF _ wf1 Some]) simp
    then show ?thesis using h' new d1 by (simp only: swapPhotoOnCardID_eq)
  qed
qed

lemma swapPhotoBackShuffle_heap_refines:
  assumes res: "swapPhotoBackShuffle_heap arr h = (arr', h')"
  shows "arr' = [length h ..< length h + length arr]"
    and "length h' = length h + length arr"
    and "\<forall>a < length h. h' ! a = h ! a"
    and "deref h' arr' = swapPhotoBackShuffle (deref h arr)"
proof -
  let ?new = "[length h ..< length h + length arr]"
  let ?h1 = "h @ deref h arr"
  let ?f = "\<lambda>cc c. c\<lparr>currentPhotoIndex :=
               (if currentPhotoIndex cc = 0 then int (length photoImages) - 1
                else currentPhotoIndex cc - 1)\<rparr>"
  let ?fcb = "find (\<lambda>a. position (?h1 ! a) = centerBack) ?new"
  let ?fc = "find (\<lambda>a. position (?h1 ! a) = center) ?new"
  have d1: "deref ?h1 ?new = deref h arr"
    using deref_append_fresh [of h "deref h arr"] by (simp add: deref_def)
  have wf1: "list_all (\<lambda>b. b < length ?h1) ?new"
    by (simp add: list_all_iff deref_def)
  have pc: "find (\<lambda>c. position c = center) (deref h arr) = map_option (\<lambda>a. ?h1 ! a) ?fc"
    using find_deref [of "\<lambda>c. position c = center" ?h1 ?new] by (simp only: d1)
  have pcb: "find (\<lambda>c. position c = centerBack) (deref h arr) = map_option (\<lambda>a. ?h1 ! a) ?fcb"
    using find_deref [of "\<lambda>c. position c = centerBack" ?h1 ?new] by (simp only: d1)
  show new: "arr' = ?new" using res
    by (auto simp: swapPhotoBackShuffle_heap_def copyCards_def split: option.splits)
  show "length h' = length h + length arr" using res
    by (auto simp: swapPhotoBackShuffle_heap_def copyCards_def split: option.splits)
  consider (none) "?fcb = None \<or> ?fc = None" | (both) cb cc where "?fcb = Some cb" "?fc = Some cc"
    by (cases ?fcb; cases ?fc) auto
  then have "(\<forall>a < length h. h' ! a = h ! a) \<and> deref h' arr' = swapPhotoBackShuffle (deref h arr)"
  proof cases
    case none
    then have h': "h' = ?h1" using res
      by (auto simp: swapPhotoBackShuffle_heap_def copyCards_def deref_def split: option.splits)
    from none have "find (\<lambda>c. position c = centerBack) (deref h arr) = None
        \<or> find (\<lambda>c. position c = center) (deref h arr) = None"
      using pc pcb by auto
    then have "swapPhotoBackShuffle (deref h arr) = deref h arr"
      by (auto simp: swapPhotoBackShuffle_eq updateFirst_no_match split: option.splits)
    then show ?thesis using h' new d1 by (simp add: nth_append)
  next
    case both
    then have h': "h' = ?h1[cb := ?f (?h1 ! cc) (?h1 ! cb)]" using res
      by (auto simp: swapPhotoBackShuffle_heap_def copyCards_def deref_def)
    from both have "cb \<in> set ?new" using find_in_set by fastforce
    then have "length h \<le> cb" by simp
    then have frame: "\<forall>a < length h. h' ! a = h ! a" unfolding h' by (simp add: nth_append)
    have "deref (?h1[cb := ?f (?h1 ! cc) (?h1 ! cb)]) ?new
            = updateFirst (\<lambda>c. position c = centerBack) (?f (?h1 ! cc)) (deref ?h1 ?new)"
      by (rule deref_update_first [OF _ wf1 both(1)]) simp
    moreover have "swapPhotoBackShuffle (deref h arr)
            = updateFirst (\<lambda>c. position c = centerBack) (?f (?h1 ! cc)) (deref h arr)"
      using pc both(2) by (simp add: swapPhotoBackShuffle_eq)
    ultimately have "deref h' arr' = swapPhotoBackShuffle (deref h arr)"
      using h' new d1 by simp
    with frame show ?thesis by simp
  qed
  then show "\<forall>a < length h. h' ! a = h ! a"
    and "deref h' arr' = swapPhotoBackShuffle (deref h arr)" by simp_all
qed

lemma deref_unchanged:
  "wellFormed h arr \<Longrightarrow> \<forall>a < length h. h' ! a = h ! a \<Longrightarrow> deref h' arr = deref h arr"
  by (simp add: wellFormed_def deref_def list_all_iff)

text \<open>
  Claim C10. The photo-swap helpers preserve the frame. \<open>swapPhotoOnCardID\<close> changes at
  most the photo index of a card whose identifier is the given one, \<open>swapPhotoBackShuffle\<close>
  at most that of a card in slot \<open>centerBack\<close>: identifier, slot and z-index of every
  card are kept, and every other card is returned as it was. On the object store, the
  objects of the argument are not written, and the array returned holds addresses that
  were not allocated before the call, whose objects are the cards the helper computes.
\<close>

theorem swap_helpers_frame:
  assumes "wellFormed h arr"
  shows "map frameOf (swapPhotoOnCardID t cs) = map frameOf cs
       \<and> (\<forall>k < length cs. cardId (cs ! k) \<noteq> t \<longrightarrow> swapPhotoOnCardID t cs ! k = cs ! k)
       \<and> map frameOf (swapPhotoBackShuffle cs) = map frameOf cs
       \<and> (\<forall>k < length cs. position (cs ! k) \<noteq> centerBack \<longrightarrow>
             swapPhotoBackShuffle cs ! k = cs ! k)
       \<and> (\<forall>a < length h. snd (swapPhotoOnCardID_heap t arr h) ! a = h ! a)
       \<and> deref (snd (swapPhotoOnCardID_heap t arr h)) arr = deref h arr
       \<and> list_all (\<lambda>a. length h \<le> a \<and> a < length (snd (swapPhotoOnCardID_heap t arr h)))
             (fst (swapPhotoOnCardID_heap t arr h))
       \<and> distinct (fst (swapPhotoOnCardID_heap t arr h))
       \<and> deref (snd (swapPhotoOnCardID_heap t arr h)) (fst (swapPhotoOnCardID_heap t arr h))
             = swapPhotoOnCardID t (deref h arr)
       \<and> (\<forall>a < length h. snd (swapPhotoBackShuffle_heap arr h) ! a = h ! a)
       \<and> deref (snd (swapPhotoBackShuffle_heap arr h)) arr = deref h arr
       \<and> list_all (\<lambda>a. length h \<le> a \<and> a < length (snd (swapPhotoBackShuffle_heap arr h)))
             (fst (swapPhotoBackShuffle_heap arr h))
       \<and> distinct (fst (swapPhotoBackShuffle_heap arr h))
       \<and> deref (snd (swapPhotoBackShuffle_heap arr h)) (fst (swapPhotoBackShuffle_heap arr h))
             = swapPhotoBackShuffle (deref h arr)"
proof -
  obtain a1 h1 where r1: "swapPhotoOnCardID_heap t arr h = (a1, h1)"
    by (cases "swapPhotoOnCardID_heap t arr h")
  obtain a2 h2 where r2: "swapPhotoBackShuffle_heap arr h = (a2, h2)"
    by (cases "swapPhotoBackShuffle_heap arr h")
  note f1 = swapPhotoOnCardID_heap_refines [OF assms r1]
  note f2 = swapPhotoBackShuffle_heap_refines [OF r2]
  have p1: "map frameOf (swapPhotoOnCardID t cs) = map frameOf cs"
    by (rule frame_swapPhotoOnCardID)
  have p2: "\<forall>k < length cs. cardId (cs ! k) \<noteq> t \<longrightarrow> swapPhotoOnCardID t cs ! k = cs ! k"
    by (simp add: others_swapPhotoOnCardID)
  have p3: "map frameOf (swapPhotoBackShuffle cs) = map frameOf cs"
    by (rule frame_swapPhotoBackShuffle)
  have p4: "\<forall>k < length cs. position (cs ! k) \<noteq> centerBack \<longrightarrow>
              swapPhotoBackShuffle cs ! k = cs ! k"
    by (simp add: others_swapPhotoBackShuffle)
  have q1: "deref h1 arr = deref h arr"
    by (rule deref_unchanged [OF assms f1(3)])
  have q2: "list_all (\<lambda>a. length h \<le> a \<and> a < length h1) a1" "distinct a1"
    by (simp_all add: f1(1) f1(2) list_all_iff)
  have q3: "deref h2 arr = deref h arr"
    by (rule deref_unchanged [OF assms f2(3)])
  have q4: "list_all (\<lambda>a. length h \<le> a \<and> a < length h2) a2" "distinct a2"
    by (simp_all add: f2(1) f2(2) list_all_iff)
  show ?thesis
    unfolding r1 r2 fst_conv snd_conv
    using p1 p2 p3 p4 f1(3) f1(4) q1 q2 f2(3) f2(4) q3 q4 by blast
qed

theorem swap_helpers_frame_witness:
  "wellFormed initializeCards_spec [0, 1, 2, 3, 4, 5]
   \<and> map frameOf (swapPhotoOnCardID CARD_B initializeCards_spec) = map frameOf initializeCards_spec
   \<and> swapPhotoOnCardID CARD_B initializeCards_spec ! 0 = initializeCards_spec ! 0
   \<and> swapPhotoBackShuffle initializeCards_spec ! 0 = initializeCards_spec ! 0
   \<and> deref (snd (swapPhotoOnCardID_heap CARD_B [0, 1, 2, 3, 4, 5] initializeCards_spec))
        [0, 1, 2, 3, 4, 5] = initializeCards_spec
   \<and> snd (swapPhotoBackShuffle_heap [0, 1, 2, 3, 4, 5] initializeCards_spec) ! 1
        = initializeCards_spec ! 1"
proof -
  have wf: "wellFormed initializeCards_spec [0, 1, 2, 3, 4, 5]"
    by (simp add: wellFormed_def initializeCards_spec_def)
  have d: "deref initializeCards_spec [0, 1, 2, 3, 4, 5] = initializeCards_spec"
    by (simp add: deref_def initializeCards_spec_def)
  have l: "length initializeCards_spec = 6" by (simp add: initializeCards_spec_def)
  have c0: "cardId (initializeCards_spec ! 0) \<noteq> CARD_B"
    "position (initializeCards_spec ! 0) \<noteq> centerBack"
    by (simp_all add: initializeCards_spec_def)
  note t = swap_helpers_frame [OF wf, of CARD_B initializeCards_spec]
  from t have a: "map frameOf (swapPhotoOnCardID CARD_B initializeCards_spec)
      = map frameOf initializeCards_spec" by blast
  from t have "\<forall>k < length initializeCards_spec. cardId (initializeCards_spec ! k) \<noteq> CARD_B
      \<longrightarrow> swapPhotoOnCardID CARD_B initializeCards_spec ! k = initializeCards_spec ! k"
    by blast
  with l c0 have b: "swapPhotoOnCardID CARD_B initializeCards_spec ! 0 = initializeCards_spec ! 0"
    by simp
  from t have "\<forall>k < length initializeCards_spec.
      position (initializeCards_spec ! k) \<noteq> centerBack
      \<longrightarrow> swapPhotoBackShuffle initializeCards_spec ! k = initializeCards_spec ! k"
    by blast
  with l c0 have c: "swapPhotoBackShuffle initializeCards_spec ! 0 = initializeCards_spec ! 0"
    by simp
  from t have "deref (snd (swapPhotoOnCardID_heap CARD_B [0, 1, 2, 3, 4, 5] initializeCards_spec))
        [0, 1, 2, 3, 4, 5] = deref initializeCards_spec [0, 1, 2, 3, 4, 5]" by blast
  with d have e: "deref (snd (swapPhotoOnCardID_heap CARD_B [0, 1, 2, 3, 4, 5]
        initializeCards_spec)) [0, 1, 2, 3, 4, 5] = initializeCards_spec" by simp
  from t have "\<forall>a < length initializeCards_spec.
      snd (swapPhotoBackShuffle_heap [0, 1, 2, 3, 4, 5] initializeCards_spec) ! a
        = initializeCards_spec ! a" by blast
  with l have f: "snd (swapPhotoBackShuffle_heap [0, 1, 2, 3, 4, 5] initializeCards_spec) ! 1
        = initializeCards_spec ! 1" by simp
  from wf a b c e f show ?thesis by blast
qed

section \<open>The controller: results\<close>

lemma handleForwardShuffle_locked: "locked s \<Longrightarrow> handleForwardShuffle L s = s"
  by (simp add: locked_def handleForwardShuffle_def)

lemma handleBackwardShuffle_locked: "locked s \<Longrightarrow> handleBackwardShuffle L s = s"
  by (simp add: locked_def handleBackwardShuffle_def)

lemma handleTouchEnd_locked: "locked s \<Longrightarrow> handleTouchEnd L x y s = s"
  by (auto simp: locked_def handleTouchEnd_def)

lemma handleForwardShuffle_unlocked:
  "\<not> locked s \<Longrightarrow>
     handleForwardShuffle L s =
       s\<lparr>cards := cardsWithOldZIndex (executeForwardShuffle L (cards s)),
         buttonsDisabled := True, isAnimatingRef := True,
         animationStates := animationStates_result (executeForwardShuffle L (cards s)),
         timers := timers s @
           [\<lparr>due = now s + 400, callback = Unlock\<rparr>,
            \<lparr>due = now s + 300,
             callback = CommitCards (cardsWithNewZIndex (executeForwardShuffle L (cards s)))\<rparr>,
            \<lparr>due = now s + 400,
             callback = SwapPhoto (flyingCardId (executeForwardShuffle L (cards s)))
                          (cardsWithNewZIndex (executeForwardShuffle L (cards s)))\<rparr>]\<rparr>"
  by (simp add: locked_def handleForwardShuffle_def setTimeout_def SHUFFLE_DELAY_def Let_def)

lemma handleBackwardShuffle_unlocked:
  "\<not> locked s \<Longrightarrow>
     handleBackwardShuffle L s =
       s\<lparr>cards := cardsWithOldZIndex (executeBackwardShuffle L (swapPhotoBackShuffle (cards s))),
         buttonsDisabled := True, isAnimatingRef := True,
         animationStates :=
           animationStates_result (executeBackwardShuffle L (swapPhotoBackShuffle (cards s))),
         timers := timers s @
           [\<lparr>due = now s + 300, callback = Unlock\<rparr>,
            \<lparr>due = now s + 150,
             callback = CommitCards
               (cardsWithNewZIndex
                 (executeBackwardShuffle L (swapPhotoBackShuffle (cards s))))\<rparr>]\<rparr>"
  by (simp add: locked_def handleBackwardShuffle_def setTimeout_def SHUFFLE_DELAY_def Let_def)

text \<open>
  Claim C1. A shuffle request that arrives while the input lock is held (\<open>isAnimatingRef\<close>
  or \<open>buttonsDisabled\<close> set), forward or backward, by a direct call or by a swipe, returns
  the state it was given: nothing is changed, queued or raised. A request that arrives
  while the lock is free has both lock fields set when the handler returns, with every
  callback it scheduled still pending, so that a second request made at once is dropped.
\<close>

theorem input_lock:
  "(locked s \<longrightarrow>
      handleForwardShuffle L s = s \<and> handleBackwardShuffle L s = s \<and>
      handleTouchEnd L x y s = s \<and>
      step L ForwardShuffleRequested s = s \<and> step L BackwardShuffleRequested s = s \<and>
      step L (TouchEnd x y) s = s)
   \<and> (\<not> locked s \<longrightarrow>
      isAnimatingRef (handleForwardShuffle L s) \<and> buttonsDisabled (handleForwardShuffle L s) \<and>
      isAnimatingRef (handleBackwardShuffle L s) \<and> buttonsDisabled (handleBackwardShuffle L s) \<and>
      map callback (timers (handleForwardShuffle L s)) =
        map callback (timers s) @
          [Unlock, CommitCards (cardsWithNewZIndex (executeForwardShuffle L (cards s))),
           SwapPhoto (flyingCardId (executeForwardShuffle L (cards s)))
             (cardsWithNewZIndex (executeForwardShuffle L (cards s)))] \<and>
      map callback (timers (handleBackwardShuffle L s)) =
        map callback (timers s) @
          [Unlock,
           CommitCards (cardsWithNewZIndex
             (executeBackwardShuffle L (swapPhotoBackShuffle (cards s))))] \<and>
      handleForwardShuffle L (handleForwardShuffle L s) = handleForwardShuffle L s \<and>
      handleBackwardShuffle L (handleForwardShuffle L s) = handleForwardShuffle L s \<and>
      handleForwardShuffle L (handleBackwardShuffle L s) = handleBackwardShuffle L s \<and>
      handleBackwardShuffle L (handleBackwardShuffle L s) = handleBackwardShuffle L s)"
proof (intro conjI impI)
  assume l: "locked s"
  show "handleForwardShuffle L s = s" "handleBackwardShuffle L s = s"
    "handleTouchEnd L x y s = s"
    using l by (rule handleForwardShuffle_locked handleBackwardShuffle_locked
        handleTouchEnd_locked)+
  then show "step L ForwardShuffleRequested s = s" "step L BackwardShuffleRequested s = s"
    "step L (TouchEnd x y) s = s"
    by (simp_all add: step_def)
next
  assume u: "\<not> locked s"
  have lf: "locked (handleForwardShuffle L s)"
    by (simp add: handleForwardShuffle_unlocked [OF u] locked_def)
  have lb: "locked (handleBackwardShuffle L s)"
    by (simp add: handleBackwardShuffle_unlocked [OF u] locked_def)
  show "isAnimatingRef (handleForwardShuffle L s)" "buttonsDisabled (handleForwardShuffle L s)"
    by (simp_all add: handleForwardShuffle_unlocked [OF u])
  show "isAnimatingRef (handleBackwardShuffle L s)" "buttonsDisabled (handleBackwardShuffle L s)"
    by (simp_all add: handleBackwardShuffle_unlocked [OF u])
  show "map callback (timers (handleForwardShuffle L s)) =
        map callback (timers s) @
          [Unlock, CommitCards (cardsWithNewZIndex (executeForwardShuffle L (cards s))),
           SwapPhoto (flyingCardId (executeForwardShuffle L (cards s)))
             (cardsWithNewZIndex (executeForwardShuffle L (cards s)))]"
    by (simp add: handleForwardShuffle_unlocked [OF u])
  show "map callback (timers (handleBackwardShuffle L s)) =
        map callback (timers s) @
          [Unlock,
           CommitCards (cardsWithNewZIndex
             (executeBackwardShuffle L (swapPhotoBackShuffle (cards s))))]"
    by (simp add: handleBackwardShuffle_unlocked [OF u])
  show "handleForwardShuffle L (handleForwardShuffle L s) = handleForwardShuffle L s"
    "handleBackwardShuffle L (handleForwardShuffle L s) = handleForwardShuffle L s"
    using lf by (rule handleForwardShuffle_locked handleBackwardShuffle_locked)+
  show "handleForwardShuffle L (handleBackwardShuffle L s) = handleBackwardShuffle L s"
    "handleBackwardShuffle L (handleBackwardShuffle L s) = handleBackwardShuffle L s"
    using lb by (rule handleForwardShuffle_locked handleBackwardShuffle_locked)+
qed

theorem input_lock_witness:
  "\<not> locked (mount specShuffleLogic)
   \<and> locked (handleForwardShuffle specShuffleLogic (mount specShuffleLogic))
   \<and> handleBackwardShuffle specShuffleLogic
        (handleForwardShuffle specShuffleLogic (mount specShuffleLogic))
       = handleForwardShuffle specShuffleLogic (mount specShuffleLogic)
   \<and> step specShuffleLogic (TouchEnd 0 0)
        (handleForwardShuffle specShuffleLogic (mount specShuffleLogic))
       = handleForwardShuffle specShuffleLogic (mount specShuffleLogic)"
proof -
  have u: "\<not> locked (mount specShuffleLogic)"
    by (simp add: locked_def mount_def)
  from u input_lock [of "mount specShuffleLogic" specShuffleLogic 0 0]
  have l: "locked (handleForwardShuffle specShuffleLogic (mount specShuffleLogic))"
    by (simp add: locked_def)
  from l input_lock [of "handleForwardShuffle specShuffleLogic (mount specShuffleLogic)"
      specShuffleLogic 0 0]
  show ?thesis using u by simp
qed

lemma earliest_None: "earliest ts = None \<longleftrightarrow> ts = []"
  by (induction ts) (auto split: option.splits)

lemma earliest_Some:
  "earliest ts = Some m \<Longrightarrow> m \<in> set ts \<and> (\<forall>t \<in> set ts. due m \<le> due t)"
proof (induction ts arbitrary: m)
  case Nil
  then show ?case by simp
next
  case (Cons t ts)
  show ?case
  proof (cases "earliest ts")
    case None
    then have "ts = []" by (simp add: earliest_None)
    with Cons.prems show ?thesis by simp
  next
    case (Some m')
    with Cons.IH have ih: "m' \<in> set ts" "\<forall>t \<in> set ts. due m' \<le> due t" by blast+
    show ?thesis
    proof (cases "due t \<le> due m'")
      case True
      with Some Cons.prems have "m = t" by simp
      with True ih show ?thesis by fastforce
    next
      case False
      with Some Cons.prems have "m = m'" by simp
      with False ih show ?thesis by fastforce
    qed
  qed
qed

lemma filter_remove1_other: "\<not> p t \<Longrightarrow> filter p (remove1 t ts) = filter p ts"
  by (induction ts) auto

lemma length_filter_remove1:
  "p t \<Longrightarrow> t \<in> set ts \<Longrightarrow> Suc (length (filter p (remove1 t ts))) = length (filter p ts)"
  by (induction ts) auto

lemma lockInvariant_mount: "lockInvariant (mount L)"
  by (simp add: lockInvariant_def mount_def locked_def)

lemma lockInvariant_frame:
  "lockInvariant s \<Longrightarrow> timers s' = timers s \<Longrightarrow> isAnimatingRef s' = isAnimatingRef s \<Longrightarrow>
     buttonsDisabled s' = buttonsDisabled s \<Longrightarrow> lockInvariant s'"
  by (simp add: lockInvariant_def locked_def)

lemma lockInvariant_forward: "lockInvariant s \<Longrightarrow> lockInvariant (handleForwardShuffle L s)"
proof (cases "locked s")
  case True
  assume "lockInvariant s"
  with True show ?thesis by (simp add: handleForwardShuffle_locked)
next
  case False
  assume inv: "lockInvariant s"
  with False have none: "filter isUnlock (timers s) = []" "filter isCommit (timers s) = []"
    by (simp_all add: lockInvariant_def)
  then have no: "\<forall>t \<in> set (timers s). \<not> isUnlock t \<and> \<not> isCommit t"
    by (simp add: filter_empty_conv)
  show ?thesis
    unfolding handleForwardShuffle_unlocked [OF False] lockInvariant_def
    using none no by (auto simp: locked_def isUnlock_def isCommit_def)
qed

lemma lockInvariant_backward: "lockInvariant s \<Longrightarrow> lockInvariant (handleBackwardShuffle L s)"
proof (cases "locked s")
  case True
  assume "lockInvariant s"
  with True show ?thesis by (simp add: handleBackwardShuffle_locked)
next
  case False
  assume inv: "lockInvariant s"
  with False have none: "filter isUnlock (timers s) = []" "filter isCommit (timers s) = []"
    by (simp_all add: lockInvariant_def)
  then have no: "\<forall>t \<in> set (timers s). \<not> isUnlock t \<and> \<not> isCommit t"
    by (simp add: filter_empty_conv)
  show ?thesis
    unfolding handleBackwardShuffle_unlocked [OF False] lockInvariant_def
    using none no by (auto simp: locked_def isUnlock_def isCommit_def)
qed

lemma lockInvariant_fireTimer: "lockInvariant s \<Longrightarrow> lockInvariant (fireTimer s)"
proof -
  assume inv: "lockInvariant s"
  show ?thesis
  proof (cases "earliest (timers s)")
    case None
    with inv show ?thesis by (simp add: fireTimer_def)
  next
    case (Some t)
    then have mem: "t \<in> set (timers s)" and least: "\<forall>t' \<in> set (timers s). due t \<le> due t'"
      using earliest_Some by blast+
    show ?thesis
    proof (cases "due t \<le> now s")
      case False
      with Some inv show ?thesis by (simp add: fireTimer_def)
    next
      case True
      let ?rest = "remove1 t (timers s)"
      have sub: "set ?rest \<subseteq> set (timers s)" by (rule set_remove1_subset)
      have fired: "fireTimer s = runCallback (callback t) (s\<lparr>timers := ?rest\<rparr>)"
        using Some True by (simp add: fireTimer_def)
      show ?thesis
      proof (cases "callback t")
        case Unlock
        then have u: "isUnlock t" by (simp add: isUnlock_def)
        then have "filter isUnlock (timers s) \<noteq> []" using mem by (auto simp: filter_empty_conv)
        then have lk: "locked s" using inv by (auto simp: lockInvariant_def split: if_splits)
        then have one: "length (filter isUnlock (timers s)) = 1"
          using inv by (simp add: lockInvariant_def)
        have "Suc (length (filter isUnlock ?rest)) = length (filter isUnlock (timers s))"
          using u mem by (rule length_filter_remove1 [where p = isUnlock])
        with one have nounlock: "filter isUnlock ?rest = []" by simp
        have "\<not> isCommit c" if "c \<in> set (timers s)" for c
        proof
          assume "isCommit c"
          with inv u mem that have "due c < due t" by (auto simp: lockInvariant_def)
          moreover from least that have "due t \<le> due c" by blast
          ultimately show False by simp
        qed
        then have "filter isCommit (timers s) = []" by (simp add: filter_empty_conv)
        moreover have "\<not> isCommit t" using u by (simp add: isUnlock_def isCommit_def)
        ultimately have nocommit: "filter isCommit ?rest = []"
          by (simp add: filter_remove1_other)
        from nocommit have "\<forall>c \<in> set ?rest. \<not> isCommit c" by (simp add: filter_empty_conv)
        then show ?thesis
          unfolding fired Unlock lockInvariant_def
          using nounlock nocommit by (auto simp: runCallback_def locked_def)
      next
        case (CommitCards cs)
        then have nu: "\<not> isUnlock t" and c: "isCommit t"
          by (simp_all add: isUnlock_def isCommit_def)
        have same: "filter isUnlock ?rest = filter isUnlock (timers s)"
          using nu by (rule filter_remove1_other [where p = isUnlock])
        have "filter isCommit (timers s) \<noteq> []" using c mem by (auto simp: filter_empty_conv)
        then have lk: "locked s" using inv by (auto simp: lockInvariant_def)
        show ?thesis
          unfolding fired CommitCards lockInvariant_def
          using inv lk same sub by (auto simp: runCallback_def locked_def lockInvariant_def)
      next
        case (SwapPhoto i cs)
        then have nu: "\<not> isUnlock t" and nc: "\<not> isCommit t"
          by (simp_all add: isUnlock_def isCommit_def)
        have same: "filter isUnlock ?rest = filter isUnlock (timers s)"
          "filter isCommit ?rest = filter isCommit (timers s)"
          using nu nc by (simp_all add: filter_remove1_other)
        show ?thesis
          unfolding fired SwapPhoto lockInvariant_def
          using inv same sub by (auto simp: runCallback_def locked_def lockInvariant_def)
      qed
    qed
  qed
qed

lemma lockInvariant_step: "lockInvariant s \<Longrightarrow> lockInvariant (step L e s)"
proof (cases e)
  case ViewportEnter
  assume "lockInvariant s"
  then show ?thesis unfolding ViewportEnter
    by (rule lockInvariant_frame) (simp_all add: step_def onViewportEnter_def entranceEffect_def)
next
  case ViewportLeave
  assume "lockInvariant s"
  then show ?thesis unfolding ViewportLeave
    by (rule lockInvariant_frame) (simp_all add: step_def onViewportLeave_def entranceEffect_def)
next
  case (TouchStart x y)
  assume "lockInvariant s"
  then show ?thesis unfolding TouchStart
    by (rule lockInvariant_frame) (simp_all add: step_def handleTouchStart_def)
next
  case (TouchEnd x y)
  assume "lockInvariant s"
  then show ?thesis unfolding TouchEnd
    by (simp add: step_def handleTouchEnd_def Let_def lockInvariant_forward
        lockInvariant_backward)
next
  case ForwardShuffleRequested
  assume "lockInvariant s"
  then show ?thesis unfolding ForwardShuffleRequested
    by (simp add: step_def lockInvariant_forward)
next
  case BackwardShuffleRequested
  assume "lockInvariant s"
  then show ?thesis unfolding BackwardShuffleRequested
    by (simp add: step_def lockInvariant_backward)
next
  case (AnimationComplete c d)
  assume "lockInvariant s"
  then show ?thesis unfolding AnimationComplete
    by (rule lockInvariant_frame)
      (simp_all add: step_def onAnimationComplete_def entranceEffect_def Let_def)
next
  case (Elapse n)
  assume "lockInvariant s"
  then show ?thesis unfolding Elapse
    by (rule lockInvariant_frame) (simp_all add: step_def)
next
  case TimerFires
  assume "lockInvariant s"
  then show ?thesis unfolding TimerFires
    by (simp add: step_def lockInvariant_fireTimer)
qed

lemma reachable_lockInvariant: "reachable L s \<Longrightarrow> lockInvariant s"
  by (induction rule: reachable.induct) (simp_all add: lockInvariant_mount lockInvariant_step)

lemma reachable_run: "reachable L s \<Longrightarrow> reachable L (run L es s)"
proof (induction es arbitrary: s)
  case Nil
  then show ?case by (simp add: run_def)
next
  case (Cons e es)
  from Cons.prems have "reachable L (step L e s)" by (rule reachable_step)
  then have "reachable L (run L es (step L e s))" by (rule Cons.IH)
  then show ?case by (simp add: run_def)
qed

lemma run_Cons: "run L (e # es) s = run L es (step L e s)"
  by (simp add: run_def)

lemma run_Nil: "run L [] s = s"
  by (simp add: run_def)






lemma specShuffleLogic_simps:
  "initializeCards specShuffleLogic = initializeCards_spec"
  "executeForwardShuffle specShuffleLogic = executeForwardShuffle_spec"
  "executeBackwardShuffle specShuffleLogic = executeBackwardShuffle_spec"
  by (simp_all add: specShuffleLogic_def)

lemma mount_spec_simps:
  "\<not> locked (mount specShuffleLogic)" "timers (mount specShuffleLogic) = []"
  "cards (mount specShuffleLogic) = initializeCards_spec" "now (mount specShuffleLogic) = 0"
  by (simp_all add: mount_def locked_def specShuffleLogic_simps)



text \<open>
  Claim C5. In a backward shuffle started where the card of slot \<open>center\<close> has photo index
  \<open>centerIndex\<close> with \<open>0 \<le> centerIndex < N\<close>, the card of slot \<open>centerBack\<close> is given the
  photo index \<open>(centerIndex - 1) mod N\<close>, and this is done before the engine reassigns
  the slots: the array handed to \<open>executeBackwardShuffle\<close> is the one with the new photo
  index, in which every card is still in its slot, and what the handler commits and
  schedules are that call's results.
\<close>

theorem backward_photo_continuity:
  assumes "\<not> locked s"
    and "find (\<lambda>c. position c = center) (cards s) = Some centerCard"
    and "find (\<lambda>c. position c = centerBack) (cards s) = Some centerBackCard"
    and "0 \<le> currentPhotoIndex centerCard"
    and "currentPhotoIndex centerCard < int (length photoImages)"
  shows "find (\<lambda>c. position c = centerBack) (swapPhotoBackShuffle (cards s)) =
           Some (centerBackCard\<lparr>currentPhotoIndex :=
                   (currentPhotoIndex centerCard - 1) mod int (length photoImages)\<rparr>)
       \<and> map position (swapPhotoBackShuffle (cards s)) = map position (cards s)
       \<and> cards (handleBackwardShuffle L s) =
           cardsWithOldZIndex (executeBackwardShuffle L (swapPhotoBackShuffle (cards s)))
       \<and> map callback (filter isCommit (timers (handleBackwardShuffle L s))) =
           map callback (filter isCommit (timers s)) @
           [CommitCards
              (cardsWithNewZIndex (executeBackwardShuffle L (swapPhotoBackShuffle (cards s))))]"
proof -
  have "(if currentPhotoIndex centerCard = 0 then int (length photoImages) - 1
         else currentPhotoIndex centerCard - 1)
        = (currentPhotoIndex centerCard - 1) mod int (length photoImages)"
  proof (cases "currentPhotoIndex centerCard = 0")
    case True
    then show ?thesis by (simp add: length_photoImages)
  next
    case False
    with assms(4) assms(5) have "0 \<le> currentPhotoIndex centerCard - 1"
      "currentPhotoIndex centerCard - 1 < int (length photoImages)" by simp_all
    with False show ?thesis by simp
  qed
  with swapPhotoBackShuffle_centerBack [OF assms(2) assms(3)]
  have a: "find (\<lambda>c. position c = centerBack) (swapPhotoBackShuffle (cards s)) =
           Some (centerBackCard\<lparr>currentPhotoIndex :=
                   (currentPhotoIndex centerCard - 1) mod int (length photoImages)\<rparr>)"
    by simp
  have b: "map position (swapPhotoBackShuffle (cards s)) = map position (cards s)"
    using map_frame_fields [OF frame_swapPhotoBackShuffle] by blast
  have c: "cards (handleBackwardShuffle L s) =
           cardsWithOldZIndex (executeBackwardShuffle L (swapPhotoBackShuffle (cards s)))"
    by (simp add: handleBackwardShuffle_unlocked [OF assms(1)])
  have d: "map callback (filter isCommit (timers (handleBackwardShuffle L s))) =
           map callback (filter isCommit (timers s)) @
           [CommitCards
              (cardsWithNewZIndex (executeBackwardShuffle L (swapPhotoBackShuffle (cards s))))]"
    by (simp add: handleBackwardShuffle_unlocked [OF assms(1)] isCommit_def)
  from a b c d show ?thesis by blast
qed

lemma initial_slots:
  "find (\<lambda>c. position c = center) initializeCards_spec =
     Some \<lparr>cardId = CARD_A, position = center, zIndex = 5, currentPhotoIndex = 0\<rparr>"
  "find (\<lambda>c. position c = centerBack) initializeCards_spec =
     Some \<lparr>cardId = CARD_B, position = centerBack, zIndex = 4, currentPhotoIndex = 1\<rparr>"
  by (simp_all add: initializeCards_spec_def)

theorem backward_photo_continuity_witness:
  "\<not> locked (mount specShuffleLogic)
   \<and> find (\<lambda>c. position c = center) (cards (mount specShuffleLogic)) =
       Some \<lparr>cardId = CARD_A, position = center, zIndex = 5, currentPhotoIndex = 0\<rparr>
   \<and> find (\<lambda>c. position c = centerBack) (swapPhotoBackShuffle (cards (mount specShuffleLogic))) =
       Some \<lparr>cardId = CARD_B, position = centerBack, zIndex = 4, currentPhotoIndex = 11\<rparr>
   \<and> cards (handleBackwardShuffle specShuffleLogic (mount specShuffleLogic)) =
       cardsWithOldZIndex (executeBackwardShuffle specShuffleLogic
         (swapPhotoBackShuffle (cards (mount specShuffleLogic))))"
proof -
  let ?s = "mount specShuffleLogic"
  have c: "find (\<lambda>c. position c = center) (cards ?s) =
       Some \<lparr>cardId = CARD_A, position = center, zIndex = 5, currentPhotoIndex = 0\<rparr>"
    and cb: "find (\<lambda>c. position c = centerBack) (cards ?s) =
       Some \<lparr>cardId = CARD_B, position = centerBack, zIndex = 4, currentPhotoIndex = 1\<rparr>"
    by (simp_all only: mount_spec_simps initial_slots)
  note t = backward_photo_continuity [OF mount_spec_simps(1) c cb, of specShuffleLogic]
  have "find (\<lambda>c. position c = centerBack) (swapPhotoBackShuffle (cards ?s)) =
       Some \<lparr>cardId = CARD_B, position = centerBack, zIndex = 4, currentPhotoIndex = 11\<rparr>"
    using t by (simp add: length_photoImages)
  moreover have "cards (handleBackwardShuffle specShuffleLogic ?s) =
       cardsWithOldZIndex (executeBackwardShuffle specShuffleLogic
         (swapPhotoBackShuffle (cards ?s)))"
    using t by (simp add: length_photoImages)
  ultimately show ?thesis using mount_spec_simps(1) c by blast
qed

text \<open>
  Claim C6, as amended. In the backward shuffle the new z-order is committed after half
  of \<open>SHUFFLE_DELAY\<close> (150 ms of 300), and the lock is released after the whole of it:
  the commit is due strictly before the unlock, and a timer that fires when half the
  delay has passed commits the new z-order with the lock still held.
\<close>

theorem backward_commit_at_half_delay:
  assumes "\<not> locked s"
  shows "timers (handleBackwardShuffle L s) =
           timers s @
             [\<lparr>due = now s + SHUFFLE_DELAY, callback = Unlock\<rparr>,
              \<lparr>due = now s + SHUFFLE_DELAY div 2,
               callback = CommitCards
                 (cardsWithNewZIndex
                   (executeBackwardShuffle L (swapPhotoBackShuffle (cards s))))\<rparr>]
       \<and> SHUFFLE_DELAY div 2 = 150 \<and> SHUFFLE_DELAY = 300
       \<and> (timers s = [] \<longrightarrow>
            cards (run L [BackwardShuffleRequested, Elapse (SHUFFLE_DELAY div 2), TimerFires] s)
              = cardsWithNewZIndex (executeBackwardShuffle L (swapPhotoBackShuffle (cards s)))
            \<and> locked (run L [BackwardShuffleRequested, Elapse (SHUFFLE_DELAY div 2), TimerFires] s)
            \<and> run L [BackwardShuffleRequested, Elapse (SHUFFLE_DELAY div 2 - 1), TimerFires] s
              = run L [BackwardShuffleRequested, Elapse (SHUFFLE_DELAY div 2 - 1)] s)"
  by (simp add: handleBackwardShuffle_unlocked [OF assms] SHUFFLE_DELAY_def run_def step_def
      fireTimer_def runCallback_def locked_def)

theorem backward_commit_at_half_delay_witness:
  "\<not> locked (mount specShuffleLogic)
   \<and> map due (timers (handleBackwardShuffle specShuffleLogic (mount specShuffleLogic)))
       = [300, 150]
   \<and> map callback (timers (handleBackwardShuffle specShuffleLogic (mount specShuffleLogic)))
       = [Unlock,
          CommitCards (cardsWithNewZIndex (executeBackwardShuffle specShuffleLogic
            (swapPhotoBackShuffle (cards (mount specShuffleLogic)))))]"
  using backward_commit_at_half_delay [OF mount_spec_simps(1), of specShuffleLogic]
  by (simp add: mount_spec_simps SHUFFLE_DELAY_def)

text \<open>
  Claim C6, as stated, fails: 150 ms after a backward request, before \<open>SHUFFLE_DELAY\<close> has
  passed and with the lock still held, the timer that fires has already committed the new
  z-order; the unlock is the one timer left.
\<close>

theorem backward_commit_at_full_delay_counterexample:
  "now (run specShuffleLogic [BackwardShuffleRequested, Elapse 150, TimerFires]
         (mount specShuffleLogic)) = 150
   \<and> 150 < SHUFFLE_DELAY
   \<and> cards (run specShuffleLogic [BackwardShuffleRequested, Elapse 150, TimerFires]
         (mount specShuffleLogic))
       = cardsWithNewZIndex (executeBackwardShuffle_spec
           (swapPhotoBackShuffle initializeCards_spec))
   \<and> locked (run specShuffleLogic [BackwardShuffleRequested, Elapse 150, TimerFires]
         (mount specShuffleLogic))
   \<and> timers (run specShuffleLogic [BackwardShuffleRequested, Elapse 150, TimerFires]
         (mount specShuffleLogic)) = [\<lparr>due = 300, callback = Unlock\<rparr>]"
  by (simp add: handleBackwardShuffle_unlocked [OF mount_spec_simps(1)] SHUFFLE_DELAY_def
      run_def step_def fireTimer_def runCallback_def locked_def mount_spec_simps
      specShuffleLogic_simps)

text \<open>
  The commits of a z-order and the lock. In every state the controller can reach, with
  any engine, no \<open>CommitCards\<close> callback is pending while the lock is free: while one has
  not run, forward and backward requests and swipes are dropped, and every pending one is
  due strictly before the unlock that frees the lock. The first phase is committed by
  the handler itself when it accepts the request.
\<close>

lemma zorder_commits_before_next_lock:
  assumes "reachable L s"
  shows "(\<not> locked s \<longrightarrow> filter isCommit (timers s) = [])
       \<and> (filter isCommit (timers s) \<noteq> [] \<longrightarrow>
            handleForwardShuffle L s = s \<and> handleBackwardShuffle L s = s \<and>
            handleTouchEnd L x y s = s)
       \<and> (\<forall>u \<in> set (timers s). \<forall>c \<in> set (timers s).
            isUnlock u \<and> isCommit c \<longrightarrow> due c < due u)
       \<and> (\<not> locked s \<longrightarrow>
            cards (handleForwardShuffle L s) =
              cardsWithOldZIndex (executeForwardShuffle L (cards s)) \<and>
            cards (handleBackwardShuffle L s) =
              cardsWithOldZIndex (executeBackwardShuffle L (swapPhotoBackShuffle (cards s))))"
proof -
  from assms have inv: "lockInvariant s" by (rule reachable_lockInvariant)
  then have a: "\<not> locked s \<longrightarrow> filter isCommit (timers s) = []"
    by (simp add: lockInvariant_def)
  then have b: "filter isCommit (timers s) \<noteq> [] \<longrightarrow>
            handleForwardShuffle L s = s \<and> handleBackwardShuffle L s = s \<and>
            handleTouchEnd L x y s = s"
    using handleForwardShuffle_locked handleBackwardShuffle_locked handleTouchEnd_locked
    by blast
  from inv have c: "\<forall>u \<in> set (timers s). \<forall>c \<in> set (timers s).
            isUnlock u \<and> isCommit c \<longrightarrow> due c < due u"
    by (simp add: lockInvariant_def)
  have d: "\<not> locked s \<longrightarrow>
            cards (handleForwardShuffle L s) =
              cardsWithOldZIndex (executeForwardShuffle L (cards s)) \<and>
            cards (handleBackwardShuffle L s) =
              cardsWithOldZIndex (executeBackwardShuffle L (swapPhotoBackShuffle (cards s)))"
    by (simp add: handleForwardShuffle_unlocked handleBackwardShuffle_unlocked)
  from a b c d show ?thesis by blast
qed

lemma after_forward_request:
  "run specShuffleLogic [ForwardShuffleRequested] (mount specShuffleLogic)
     = handleForwardShuffle specShuffleLogic (mount specShuffleLogic)"
  by (simp add: run_def step_def)

lemma zorder_commits_before_next_lock_example:
  "reachable specShuffleLogic
     (run specShuffleLogic [ForwardShuffleRequested] (mount specShuffleLogic))
   \<and> filter isCommit
       (timers (run specShuffleLogic [ForwardShuffleRequested] (mount specShuffleLogic))) \<noteq> []
   \<and> handleBackwardShuffle specShuffleLogic
       (run specShuffleLogic [ForwardShuffleRequested] (mount specShuffleLogic))
      = run specShuffleLogic [ForwardShuffleRequested] (mount specShuffleLogic)
   \<and> reachable specShuffleLogic
       (run specShuffleLogic
         [BackwardShuffleRequested, Elapse 300, TimerFires, TimerFires]
         (mount specShuffleLogic))
   \<and> \<not> locked (run specShuffleLogic
         [BackwardShuffleRequested, Elapse 300, TimerFires, TimerFires]
         (mount specShuffleLogic))
   \<and> filter isCommit (timers (run specShuffleLogic
         [BackwardShuffleRequested, Elapse 300, TimerFires, TimerFires]
         (mount specShuffleLogic))) = []"
proof -
  let ?s1 = "run specShuffleLogic [ForwardShuffleRequested] (mount specShuffleLogic)"
  let ?s2 = "run specShuffleLogic
         [BackwardShuffleRequested, Elapse 300, TimerFires, TimerFires] (mount specShuffleLogic)"
  have r1: "reachable specShuffleLogic ?s1" and r2: "reachable specShuffleLogic ?s2"
    by (rule reachable_run [OF reachable_mount])+
  have pending: "filter isCommit (timers ?s1) \<noteq> []"
    unfolding after_forward_request
    by (simp add: handleForwardShuffle_unlocked [OF mount_spec_simps(1)] isCommit_def)
  have free: "\<not> locked ?s2"
    by (simp add: handleBackwardShuffle_unlocked [OF mount_spec_simps(1)] SHUFFLE_DELAY_def
        run_def step_def fireTimer_def runCallback_def locked_def mount_spec_simps)
  from zorder_commits_before_next_lock [OF r1, of 0 0] pending
  have dropped: "handleBackwardShuffle specShuffleLogic ?s1 = ?s1" by blast
  from zorder_commits_before_next_lock [OF r2, of 0 0] free
  have none: "filter isCommit (timers ?s2) = []" by blast
  from r1 pending dropped r2 free none show ?thesis by blast
qed



section \<open>The stacking of the cards\<close>

lemma UNIV_Position: "UNIV = {center, centerBack, left1, left2, right1, right2}"
proof -
  have "p \<in> {center, centerBack, left1, left2, right1, right2}" for p
    by (cases p) simp_all
  then show ?thesis by blast
qed

lemma card_Position: "card (UNIV :: Position set) = 6"
  by (simp add: UNIV_Position)

lemma inj_nextPosition: "inj nextPosition"
proof (rule injI)
  fix p q assume "nextPosition p = nextPosition q"
  then show "p = q" by (cases p; cases q) simp_all
qed

lemma inj_previousPosition: "inj previousPosition"
proof (rule injI)
  fix p q assume "previousPosition p = previousPosition q"
  then show "p = q" by (cases p; cases q) simp_all
qed

lemma inj_baseZIndex: "inj baseZIndex"
proof (rule injI)
  fix p q assume "baseZIndex p = baseZIndex q"
  then show "p = q" by (cases p; cases q) simp_all
qed

lemma range_baseZIndex: "range baseZIndex = {0..5}"
proof
  show "range baseZIndex \<subseteq> {0..5}"
  proof
    fix z assume "z \<in> range baseZIndex"
    then obtain p where "z = baseZIndex p" by blast
    then show "z \<in> {0..5}" by (cases p) simp_all
  qed
  show "{0..5} \<subseteq> range baseZIndex"
  proof
    fix z :: int assume "z \<in> {0..5}"
    then have "z = 0 \<or> z = 1 \<or> z = 2 \<or> z = 3 \<or> z = 4 \<or> z = 5" by auto
    moreover have "baseZIndex right2 = 0" "baseZIndex right1 = 1" "baseZIndex left2 = 2"
      "baseZIndex left1 = 3" "baseZIndex centerBack = 4" "baseZIndex center = 5" by simp_all
    ultimately show "z \<in> range baseZIndex" by (metis rangeI)
  qed
qed

lemma validCards_slots: "validCards cs \<Longrightarrow> set (map position cs) = UNIV"
proof -
  assume v: "validCards cs"
  then have "card (set (map position cs)) = 6"
    using distinct_card [of "map position cs"] by (simp add: validCards_def)
  then have "card (set (map position cs)) = card (UNIV :: Position set)"
    by (simp add: card_Position)
  moreover have "finite (UNIV :: Position set)" by (simp add: UNIV_Position)
  moreover have "set (map position cs) \<subseteq> UNIV" by simp
  ultimately show ?thesis by (simp only: card_subset_eq)
qed

lemma distinct_map_inj: "distinct xs \<Longrightarrow> inj f \<Longrightarrow> distinct (map f xs)"
  by (induction xs) (auto dest: injD)

lemma validCards_frame:
  "map frameOf cs' = map frameOf cs \<Longrightarrow> validCards cs' = validCards cs"
proof -
  assume eq: "map frameOf cs' = map frameOf cs"
  then have "length (map frameOf cs') = length (map frameOf cs)" by simp
  then have "length cs' = length cs" by simp
  with map_frame_fields [OF eq] show ?thesis by (simp only: validCards_def)
qed

lemma validCards_moveCards:
  assumes "validCards cs" and "inj f"
  shows "validCards (moveCards f cs)"
proof -
  have "map position (moveCards f cs) = map f (map position cs)"
    by (simp add: moveCards_def comp_def)
  moreover have "distinct (map position cs)" using assms(1) by (simp only: validCards_def)
  then have "distinct (map f (map position cs))" using assms(2) by (rule distinct_map_inj)
  ultimately have "distinct (map position (moveCards f cs))" by simp
  moreover have "map cardId (moveCards f cs) = map cardId cs"
    "map zIndex (moveCards f cs) = map zIndex cs" "length (moveCards f cs) = length cs"
    by (simp_all add: moveCards_def comp_def)
  ultimately show ?thesis using assms(1) by (simp only: validCards_def)
qed

lemma validCards_restack:
  assumes "validCards cs"
  shows "validCards (restack cs)"
proof -
  have z: "map zIndex (restack cs) = map baseZIndex (map position cs)"
    by (simp add: restack_def comp_def)
  have "distinct (map position cs)" using assms by (simp only: validCards_def)
  then have "distinct (map baseZIndex (map position cs))"
    using inj_baseZIndex by (rule distinct_map_inj)
  then have d: "distinct (map zIndex (restack cs))" by (simp only: z)
  have "set (map baseZIndex (map position cs)) = baseZIndex ` set (map position cs)"
    by (rule set_map)
  also have "\<dots> = range baseZIndex" by (simp only: validCards_slots [OF assms])
  finally have s: "set (map zIndex (restack cs)) = {0..5}"
    by (simp only: z range_baseZIndex)
  have "map cardId (restack cs) = map cardId cs" "map position (restack cs) = map position cs"
    "length (restack cs) = length cs"
    by (simp_all add: restack_def comp_def)
  with d s assms show ?thesis by (simp only: validCards_def)
qed

lemma validCards_swapPhotoOnCardID: "validCards (swapPhotoOnCardID t cs) = validCards cs"
  by (rule validCards_frame) (rule frame_swapPhotoOnCardID)

lemma validCards_swapPhotoBackShuffle: "validCards (swapPhotoBackShuffle cs) = validCards cs"
  by (rule validCards_frame) (rule frame_swapPhotoBackShuffle)

lemma validCards_initial: "validCards initializeCards_spec"
proof -
  have "set (map zIndex initializeCards_spec) = {0, 1, 2, 3, 4, 5}"
    by (auto simp: initializeCards_spec_def)
  moreover have "{0..5} = {0, 1, 2, 3, 4, 5 :: int}" by auto
  ultimately show ?thesis by (simp add: validCards_def initializeCards_spec_def)
qed

lemma validCards_forward:
  assumes "validCards cs"
  shows "validCards (cardsWithOldZIndex (executeForwardShuffle_spec cs))"
    and "validCards (cardsWithNewZIndex (executeForwardShuffle_spec cs))"
proof -
  have m: "validCards (moveCards nextPosition cs)"
    using assms inj_nextPosition by (rule validCards_moveCards)
  then show "validCards (cardsWithOldZIndex (executeForwardShuffle_spec cs))"
    by (simp add: executeForwardShuffle_spec_def)
  from m have "validCards (restack (moveCards nextPosition cs))" by (rule validCards_restack)
  then show "validCards (cardsWithNewZIndex (executeForwardShuffle_spec cs))"
    by (simp add: executeForwardShuffle_spec_def)
qed

lemma validCards_backward:
  assumes "validCards cs"
  shows "validCards (cardsWithOldZIndex (executeBackwardShuffle_spec cs))"
    and "validCards (cardsWithNewZIndex (executeBackwardShuffle_spec cs))"
proof -
  have m: "validCards (moveCards previousPosition cs)"
    using assms inj_previousPosition by (rule validCards_moveCards)
  then show "validCards (cardsWithOldZIndex (executeBackwardShuffle_spec cs))"
    by (simp add: executeBackwardShuffle_spec_def)
  from m have "validCards (restack (moveCards previousPosition cs))" by (rule validCards_restack)
  then show "validCards (cardsWithNewZIndex (executeBackwardShuffle_spec cs))"
    by (simp add: executeBackwardShuffle_spec_def)
qed

lemma stackingInvariant_mount: "stackingInvariant (mount specShuffleLogic)"
  by (simp add: stackingInvariant_def mount_def specShuffleLogic_simps validCards_initial)

lemma stackingInvariant_frame:
  "stackingInvariant s \<Longrightarrow> timers s' = timers s \<Longrightarrow> cards s' = cards s \<Longrightarrow>
     stackingInvariant s'"
  by (simp add: stackingInvariant_def)

lemma stackingInvariant_forward:
  assumes "stackingInvariant s"
  shows "stackingInvariant (handleForwardShuffle specShuffleLogic s)"
proof (cases "locked s")
  case True
  with assms show ?thesis by (simp add: handleForwardShuffle_locked)
next
  case False
  from assms have "validCards (cards s)" by (simp add: stackingInvariant_def)
  note v = validCards_forward [OF this]
  show ?thesis
    unfolding handleForwardShuffle_unlocked [OF False]
    using assms v
    by (simp add: stackingInvariant_def specShuffleLogic_simps capturedCards_def)
qed

lemma stackingInvariant_backward:
  assumes "stackingInvariant s"
  shows "stackingInvariant (handleBackwardShuffle specShuffleLogic s)"
proof (cases "locked s")
  case True
  with assms show ?thesis by (simp add: handleBackwardShuffle_locked)
next
  case False
  from assms have "validCards (swapPhotoBackShuffle (cards s))"
    by (simp add: stackingInvariant_def validCards_swapPhotoBackShuffle)
  note v = validCards_backward [OF this]
  show ?thesis
    unfolding handleBackwardShuffle_unlocked [OF False]
    using assms v
    by (simp add: stackingInvariant_def specShuffleLogic_simps capturedCards_def)
qed

lemma stackingInvariant_fireTimer:
  assumes "stackingInvariant s"
  shows "stackingInvariant (fireTimer s)"
proof (cases "earliest (timers s)")
  case None
  with assms show ?thesis by (simp add: fireTimer_def)
next
  case (Some t)
  then have mem: "t \<in> set (timers s)" using earliest_Some by blast
  let ?ok = "\<lambda>t. case capturedCards (callback t) of None \<Rightarrow> True | Some cs \<Rightarrow> validCards cs"
  from assms have all: "list_all ?ok (timers s)" and v: "validCards (cards s)"
    by (simp_all add: stackingInvariant_def)
  from all mem have okt: "?ok t" by (simp add: list_all_iff)
  have "set (remove1 t (timers s)) \<subseteq> set (timers s)" by (rule set_remove1_subset)
  with all have rest: "list_all ?ok (remove1 t (timers s))"
    unfolding list_all_iff by blast
  show ?thesis
  proof (cases "due t \<le> now s")
    case False
    with Some assms show ?thesis by (simp add: fireTimer_def)
  next
    case True
    then have fired: "fireTimer s = runCallback (callback t) (s\<lparr>timers := remove1 t (timers s)\<rparr>)"
      using Some by (simp add: fireTimer_def)
    show ?thesis
    proof (cases "callback t")
      case Unlock
      with v rest show ?thesis
        unfolding fired by (simp add: runCallback_def stackingInvariant_def)
    next
      case (CommitCards cs)
      with okt have "validCards cs" by (simp add: capturedCards_def)
      with CommitCards rest show ?thesis
        unfolding fired by (simp add: runCallback_def stackingInvariant_def)
    next
      case (SwapPhoto i cs)
      with okt have "validCards cs" by (simp add: capturedCards_def)
      with SwapPhoto rest show ?thesis
        unfolding fired
        by (simp add: runCallback_def stackingInvariant_def validCards_swapPhotoOnCardID)
    qed
  qed
qed

lemma stackingInvariant_step:
  assumes "stackingInvariant s"
  shows "stackingInvariant (step specShuffleLogic e s)"
proof (cases e)
  case ViewportEnter
  from assms show ?thesis unfolding ViewportEnter
    by (rule stackingInvariant_frame)
      (simp_all add: step_def onViewportEnter_def entranceEffect_def)
next
  case ViewportLeave
  from assms show ?thesis unfolding ViewportLeave
    by (rule stackingInvariant_frame)
      (simp_all add: step_def onViewportLeave_def entranceEffect_def)
next
  case (TouchStart x y)
  from assms show ?thesis unfolding TouchStart
    by (rule stackingInvariant_frame) (simp_all add: step_def handleTouchStart_def)
next
  case (TouchEnd x y)
  from assms show ?thesis unfolding TouchEnd
    by (simp add: step_def handleTouchEnd_def Let_def stackingInvariant_forward
        stackingInvariant_backward)
next
  case ForwardShuffleRequested
  from assms show ?thesis unfolding ForwardShuffleRequested
    by (simp add: step_def stackingInvariant_forward)
next
  case BackwardShuffleRequested
  from assms show ?thesis unfolding BackwardShuffleRequested
    by (simp add: step_def stackingInvariant_backward)
next
  case (AnimationComplete c d)
  from assms show ?thesis unfolding AnimationComplete
    by (rule stackingInvariant_frame)
      (simp_all add: step_def onAnimationComplete_def entranceEffect_def Let_def)
next
  case (Elapse n)
  from assms show ?thesis unfolding Elapse
    by (rule stackingInvariant_frame) (simp_all add: step_def)
next
  case TimerFires
  from assms show ?thesis unfolding TimerFires
    by (simp add: step_def stackingInvariant_fireTimer)
qed

lemma reachable_validCards: "reachable specShuffleLogic s \<Longrightarrow> validCards (cards s)"
proof -
  assume "reachable specShuffleLogic s"
  then have "stackingInvariant s"
    by (induction rule: reachable.induct)
      (simp_all add: stackingInvariant_mount stackingInvariant_step)
  then show ?thesis by (simp add: stackingInvariant_def)
qed

text \<open>
  With the engine and the slot table modelled from the specification: in every state
  reached from the mounted state by any sequence of events, the six cards occupy six
  distinct slots, so that the map from cards to slots is a bijection, and their z-indices
  are a bijection onto the six base z-indices of the slot table.
\<close>

lemma stacking_bijections:
  assumes "reachable specShuffleLogic s"
  shows "length (cards s) = 6 \<and> distinct (map cardId (cards s))
       \<and> distinct (map position (cards s)) \<and> bij_betw position (set (cards s)) UNIV
       \<and> distinct (map zIndex (cards s)) \<and> bij_betw zIndex (set (cards s)) {0..5}"
proof -
  from assms have v: "validCards (cards s)" by (rule reachable_validCards)
  then have basics: "length (cards s) = 6" "distinct (map cardId (cards s))"
    "distinct (map position (cards s))" "distinct (map zIndex (cards s))"
    "zIndex ` set (cards s) = {0..5}"
    by (simp_all add: validCards_def)
  from validCards_slots [OF v] have slots: "position ` set (cards s) = UNIV" by simp
  from basics(3) have "inj_on position (set (cards s))" by (simp add: distinct_map)
  with slots have b1: "bij_betw position (set (cards s)) UNIV" by (simp add: bij_betw_def)
  from basics(4) have "inj_on zIndex (set (cards s))" by (simp add: distinct_map)
  with basics(5) have b2: "bij_betw zIndex (set (cards s)) {0..5}" by (simp add: bij_betw_def)
  from basics b1 b2 show ?thesis by blast
qed

section \<open>The entrance\<close>

lemma handleForwardShuffle_entrance:
  "hasCompletedEntrance (handleForwardShuffle L s) = hasCompletedEntrance s"
  by (simp add: handleForwardShuffle_def setTimeout_def Let_def)

lemma handleBackwardShuffle_entrance:
  "hasCompletedEntrance (handleBackwardShuffle L s) = hasCompletedEntrance s"
  by (simp add: handleBackwardShuffle_def setTimeout_def Let_def)

lemma fireTimer_entrance: "hasCompletedEntrance (fireTimer s) = hasCompletedEntrance s"
proof (cases "earliest (timers s)")
  case None
  then show ?thesis by (simp add: fireTimer_def)
next
  case (Some t)
  then show ?thesis
    by (cases "callback t") (simp_all add: fireTimer_def runCallback_def)
qed

lemma entranceEffect_entrance:
  "hasCompletedEntrance (entranceEffect s) = hasCompletedEntrance s"
  by (simp add: entranceEffect_def)

lemma onViewportEnter_entrance:
  "hasCompletedEntrance (onViewportEnter s) = hasCompletedEntrance s"
  by (simp add: onViewportEnter_def entranceEffect_entrance)

lemma onViewportLeave_entrance:
  "hasCompletedEntrance (onViewportLeave s) = hasCompletedEntrance s"
  by (simp add: onViewportLeave_def entranceEffect_entrance)

lemma handleTouchEnd_entrance:
  "hasCompletedEntrance (handleTouchEnd L x y s) = hasCompletedEntrance s"
  by (simp add: handleTouchEnd_def Let_def handleForwardShuffle_entrance
      handleBackwardShuffle_entrance)

lemma onAnimationComplete_entrance:
  "onAnimationComplete c d s =
     (if d = ONSCREEN \<and> zIndex c = 5 \<and> \<not> hasCompletedEntrance s
      then s\<lparr>hasCompletedEntrance := True, animationStates := (\<lambda>_. MOVE_TO_POSITION)\<rparr>
      else if d = FLY_LEFT \<or> d = FLY_RIGHT
      then s\<lparr>animationStates := (animationStates s)(cardId c := MOVE_TO_POSITION)\<rparr>
      else s)"
  by (auto simp: onAnimationComplete_def entranceEffect_def Let_def)

lemma entrance_flip:
  assumes "hasCompletedEntrance (step L e s) \<noteq> hasCompletedEntrance s"
  shows "\<exists>c. e = AnimationComplete c ONSCREEN \<and> c \<in> set (cards s) \<and> zIndex c = 5 \<and>
    animationStates s (cardId c) = ONSCREEN \<and> \<not> hasCompletedEntrance s \<and>
    step L e s = s\<lparr>hasCompletedEntrance := True, animationStates := (\<lambda>_. MOVE_TO_POSITION)\<rparr>"
proof (cases e)
  case ViewportEnter
  with assms show ?thesis by (simp add: step_def onViewportEnter_entrance)
next
  case ViewportLeave
  with assms show ?thesis by (simp add: step_def onViewportLeave_entrance)
next
  case (TouchStart x y)
  with assms show ?thesis by (simp add: step_def handleTouchStart_def)
next
  case (TouchEnd x y)
  with assms show ?thesis by (simp add: step_def handleTouchEnd_entrance)
next
  case ForwardShuffleRequested
  with assms show ?thesis by (simp add: step_def handleForwardShuffle_entrance)
next
  case BackwardShuffleRequested
  with assms show ?thesis by (simp add: step_def handleBackwardShuffle_entrance)
next
  case (AnimationComplete c d)
  show ?thesis
  proof (cases "c \<in> set (cards s) \<and> animationStates s (cardId c) = d \<and> d = ONSCREEN
      \<and> zIndex c = 5 \<and> \<not> hasCompletedEntrance s")
    case True
    then have "step L e s =
        s\<lparr>hasCompletedEntrance := True, animationStates := (\<lambda>_. MOVE_TO_POSITION)\<rparr>"
      unfolding AnimationComplete
      by (simp add: step_def onAnimationComplete_entrance)
    with True AnimationComplete show ?thesis by blast
  next
    case False
    then have "hasCompletedEntrance (step L e s) = hasCompletedEntrance s"
      unfolding AnimationComplete
      by (auto simp: step_def onAnimationComplete_entrance)
    with assms show ?thesis by simp
  qed
next
  case (Elapse n)
  with assms show ?thesis by (simp add: step_def)
next
  case TimerFires
  with assms show ?thesis by (simp add: step_def fireTimer_entrance)
qed

lemma entrance_monotone: "hasCompletedEntrance s \<Longrightarrow> hasCompletedEntrance (step L e s)"
proof (rule ccontr)
  assume h: "hasCompletedEntrance s" and n: "\<not> hasCompletedEntrance (step L e s)"
  then have "hasCompletedEntrance (step L e s) \<noteq> hasCompletedEntrance s" by simp
  then have "\<not> hasCompletedEntrance s" using entrance_flip by blast
  with h show False by simp
qed

lemma entranceFlips_done: "hasCompletedEntrance s \<Longrightarrow> entranceFlips L es s = 0"
  by (induction es arbitrary: s) (simp_all add: entrance_monotone)

lemma entranceFlips_le_1: "entranceFlips L es s \<le> 1"
proof (induction es arbitrary: s)
  case Nil
  then show ?case by simp
next
  case (Cons e es)
  show ?case
  proof (cases "hasCompletedEntrance (step L e s)")
    case True
    then show ?thesis by (simp add: entranceFlips_done)
  next
    case False
    with Cons.IH [of "step L e s"] show ?thesis by simp
  qed
qed

lemma entranceFlips_eq_1:
  "\<not> hasCompletedEntrance s \<Longrightarrow> hasCompletedEntrance (run L es s) \<Longrightarrow>
     entranceFlips L es s = 1"
proof (induction es arbitrary: s)
  case Nil
  then show ?case by (simp add: run_Nil)
next
  case (Cons e es)
  show ?case
  proof (cases "hasCompletedEntrance (step L e s)")
    case True
    with Cons.prems show ?thesis by (simp add: entranceFlips_done)
  next
    case False
    moreover from Cons.prems have "hasCompletedEntrance (run L es (step L e s))"
      by (simp add: run_Cons)
    ultimately have "entranceFlips L es (step L e s) = 1" by (rule Cons.IH)
    with False show ?thesis by simp
  qed
qed

lemma notEntered_states: "notEntered s \<Longrightarrow> animationStates s i \<noteq> ONSCREEN"
  by (cases i) (simp_all add: notEntered_def)

lemma notEntered_intro:
  "\<not> isInView s \<Longrightarrow> \<not> hasCompletedEntrance s \<Longrightarrow> (\<And>i. animationStates s i \<noteq> ONSCREEN) \<Longrightarrow>
     notEntered s"
  by (simp add: notEntered_def)

lemma notEntered_mount: "notEntered (mount L)"
  by (simp add: notEntered_def mount_def)

lemma notEntered_frame:
  "notEntered s \<Longrightarrow> isInView s' = isInView s \<Longrightarrow>
     hasCompletedEntrance s' = hasCompletedEntrance s \<Longrightarrow>
     animationStates s' = animationStates s \<Longrightarrow> notEntered s'"
  by (simp add: notEntered_def)

lemma fireTimer_frame:
  "isInView (fireTimer s) = isInView s \<and> animationStates (fireTimer s) = animationStates s"
proof (cases "earliest (timers s)")
  case None
  then show ?thesis by (simp add: fireTimer_def)
next
  case (Some t)
  then show ?thesis
    by (cases "callback t") (simp_all add: fireTimer_def runCallback_def)
qed

lemma notEntered_forward:
  assumes "notEntered s"
  shows "notEntered (handleForwardShuffle specShuffleLogic s)"
proof (cases "locked s")
  case True
  with assms show ?thesis by (simp add: handleForwardShuffle_locked)
next
  case False
  from assms show ?thesis
    unfolding handleForwardShuffle_unlocked [OF False]
    by (simp add: notEntered_def specShuffleLogic_simps executeForwardShuffle_spec_def)
qed

lemma notEntered_backward:
  assumes "notEntered s"
  shows "notEntered (handleBackwardShuffle specShuffleLogic s)"
proof (cases "locked s")
  case True
  with assms show ?thesis by (simp add: handleBackwardShuffle_locked)
next
  case False
  from assms show ?thesis
    unfolding handleBackwardShuffle_unlocked [OF False]
    by (simp add: notEntered_def specShuffleLogic_simps executeBackwardShuffle_spec_def)
qed

lemma notEntered_step:
  assumes "notEntered s" and "e \<noteq> ViewportEnter"
  shows "notEntered (step specShuffleLogic e s)"
proof (cases e)
  case ViewportEnter
  with assms(2) show ?thesis by simp
next
  case ViewportLeave
  from assms(1) have "\<not> isInView s" by (simp add: notEntered_def)
  with assms(1) show ?thesis unfolding ViewportLeave
    by (simp add: step_def onViewportLeave_def)
next
  case (TouchStart x y)
  from assms(1) show ?thesis unfolding TouchStart
    by (rule notEntered_frame) (simp_all add: step_def handleTouchStart_def)
next
  case (TouchEnd x y)
  from assms(1) have "\<not> hasCompletedEntrance s" by (simp add: notEntered_def)
  with assms(1) show ?thesis unfolding TouchEnd
    by (simp add: step_def handleTouchEnd_def)
next
  case ForwardShuffleRequested
  from assms(1) show ?thesis unfolding ForwardShuffleRequested
    by (simp add: step_def notEntered_forward)
next
  case BackwardShuffleRequested
  from assms(1) show ?thesis unfolding BackwardShuffleRequested
    by (simp add: step_def notEntered_backward)
next
  case (AnimationComplete c d)
  show ?thesis
  proof (cases "c \<in> set (cards s) \<and> animationStates s (cardId c) = d")
    case False
    with assms(1) show ?thesis unfolding AnimationComplete by (auto simp: step_def)
  next
    case True
    with notEntered_states [OF assms(1), of "cardId c"] have d: "d \<noteq> ONSCREEN" by auto
    have st: "step specShuffleLogic (AnimationComplete c d) s =
        (if d = FLY_LEFT \<or> d = FLY_RIGHT
         then s\<lparr>animationStates := (animationStates s)(cardId c := MOVE_TO_POSITION)\<rparr>
         else s)"
      using True d by (simp add: step_def onAnimationComplete_entrance)
    show ?thesis
      unfolding AnimationComplete st using assms(1) by (simp add: notEntered_def)
  qed
next
  case (Elapse n)
  from assms(1) show ?thesis unfolding Elapse
    by (rule notEntered_frame) (simp_all add: step_def)
next
  case TimerFires
  from assms(1) show ?thesis unfolding TimerFires
    by (rule notEntered_frame) (simp_all add: step_def fireTimer_frame fireTimer_entrance)
qed

lemma notEntered_run:
  "notEntered s \<Longrightarrow> ViewportEnter \<notin> set es \<Longrightarrow> notEntered (run specShuffleLogic es s)"
proof (induction es arbitrary: s)
  case Nil
  then show ?case by (simp add: run_Nil)
next
  case (Cons e es)
  from Cons.prems have "notEntered (step specShuffleLogic e s)"
    by (intro notEntered_step) auto
  moreover from Cons.prems have "ViewportEnter \<notin> set es" by simp
  ultimately have "notEntered (run specShuffleLogic es (step specShuffleLogic e s))"
    by (rule Cons.IH)
  then show ?case by (simp add: run_Cons)
qed

text \<open>
  Claim C7. \<open>hasCompletedEntrance\<close> is never reset, so it goes from false to true at most
  once in any run, and exactly once in a run that ends with it true. It goes to true only
  in the step in which a rendered card whose z-index is 5, the highest z-index of the
  stack, reports the completion of its \<open>ONSCREEN\<close> animation, and in that step every
  card's animation state becomes \<open>MOVE_TO_POSITION\<close>; such a report always sets it. In a
  run without a viewport entry it stays false.
\<close>

theorem entrance_gating:
  "(hasCompletedEntrance s \<longrightarrow> hasCompletedEntrance (step L e s))
   \<and> (\<not> hasCompletedEntrance s \<and> hasCompletedEntrance (step L e s) \<longrightarrow>
        (\<exists>c. e = AnimationComplete c ONSCREEN \<and> c \<in> set (cards s) \<and> zIndex c = 5 \<and>
             animationStates s (cardId c) = ONSCREEN)
        \<and> animationStates (step L e s) = (\<lambda>_. MOVE_TO_POSITION))
   \<and> (\<not> hasCompletedEntrance s \<and> c \<in> set (cards s) \<and> zIndex c = 5 \<and>
        animationStates s (cardId c) = ONSCREEN \<longrightarrow>
          hasCompletedEntrance (step L (AnimationComplete c ONSCREEN) s))
   \<and> entranceFlips L es s \<le> 1
   \<and> (hasCompletedEntrance (run L es (mount L)) \<longrightarrow> entranceFlips L es (mount L) = 1)
   \<and> (ViewportEnter \<notin> set es \<longrightarrow>
        \<not> hasCompletedEntrance (run specShuffleLogic es (mount specShuffleLogic)))
   \<and> (reachable specShuffleLogic s \<longrightarrow> (\<forall>c' \<in> set (cards s). zIndex c' \<le> 5))"
proof -
  have a: "hasCompletedEntrance s \<longrightarrow> hasCompletedEntrance (step L e s)"
    by (simp add: entrance_monotone)
  have b: "\<not> hasCompletedEntrance s \<and> hasCompletedEntrance (step L e s) \<longrightarrow>
        (\<exists>c. e = AnimationComplete c ONSCREEN \<and> c \<in> set (cards s) \<and> zIndex c = 5 \<and>
             animationStates s (cardId c) = ONSCREEN)
        \<and> animationStates (step L e s) = (\<lambda>_. MOVE_TO_POSITION)"
  proof
    assume "\<not> hasCompletedEntrance s \<and> hasCompletedEntrance (step L e s)"
    then have "hasCompletedEntrance (step L e s) \<noteq> hasCompletedEntrance s" by simp
    from entrance_flip [OF this] obtain c where
      c: "e = AnimationComplete c ONSCREEN" "c \<in> set (cards s)" "zIndex c = 5"
        "animationStates s (cardId c) = ONSCREEN"
      and st: "step L e s =
        s\<lparr>hasCompletedEntrance := True, animationStates := (\<lambda>_. MOVE_TO_POSITION)\<rparr>"
      by blast
    from st have "animationStates (step L e s) = (\<lambda>_. MOVE_TO_POSITION)" by simp
    with c show "(\<exists>c. e = AnimationComplete c ONSCREEN \<and> c \<in> set (cards s) \<and> zIndex c = 5 \<and>
             animationStates s (cardId c) = ONSCREEN)
        \<and> animationStates (step L e s) = (\<lambda>_. MOVE_TO_POSITION)" by blast
  qed
  have c: "\<not> hasCompletedEntrance s \<and> c \<in> set (cards s) \<and> zIndex c = 5 \<and>
        animationStates s (cardId c) = ONSCREEN \<longrightarrow>
          hasCompletedEntrance (step L (AnimationComplete c ONSCREEN) s)"
    by (simp add: step_def onAnimationComplete_entrance)
  have d: "entranceFlips L es s \<le> 1" by (rule entranceFlips_le_1)
  have e: "hasCompletedEntrance (run L es (mount L)) \<longrightarrow> entranceFlips L es (mount L) = 1"
  proof
    assume "hasCompletedEntrance (run L es (mount L))"
    moreover have "\<not> hasCompletedEntrance (mount L)" by (simp add: mount_def)
    ultimately show "entranceFlips L es (mount L) = 1" by (intro entranceFlips_eq_1)
  qed
  have f: "ViewportEnter \<notin> set es \<longrightarrow>
        \<not> hasCompletedEntrance (run specShuffleLogic es (mount specShuffleLogic))"
  proof
    assume "ViewportEnter \<notin> set es"
    with notEntered_mount have "notEntered (run specShuffleLogic es (mount specShuffleLogic))"
      by (rule notEntered_run)
    then show "\<not> hasCompletedEntrance (run specShuffleLogic es (mount specShuffleLogic))"
      by (simp add: notEntered_def)
  qed
  have g: "reachable specShuffleLogic s \<longrightarrow> (\<forall>c' \<in> set (cards s). zIndex c' \<le> 5)"
  proof
    assume "reachable specShuffleLogic s"
    then have "validCards (cards s)" by (rule reachable_validCards)
    then have "zIndex ` set (cards s) = {0..5}" by (simp add: validCards_def)
    then show "\<forall>c' \<in> set (cards s). zIndex c' \<le> 5" by auto
  qed
  from a b c d e f g show ?thesis by blast
qed

theorem entrance_gating_witness:
  "hasCompletedEntrance
     (run specShuffleLogic
        [ViewportEnter,
         AnimationComplete
           \<lparr>cardId = CARD_A, position = center, zIndex = 5, currentPhotoIndex = 0\<rparr> ONSCREEN]
        (mount specShuffleLogic))
   \<and> entranceFlips specShuffleLogic
        [ViewportEnter,
         AnimationComplete
           \<lparr>cardId = CARD_A, position = center, zIndex = 5, currentPhotoIndex = 0\<rparr> ONSCREEN]
        (mount specShuffleLogic) = 1
   \<and> \<not> hasCompletedEntrance
        (run specShuffleLogic
           [AnimationComplete
              \<lparr>cardId = CARD_A, position = center, zIndex = 5, currentPhotoIndex = 0\<rparr> ONSCREEN,
            ForwardShuffleRequested]
           (mount specShuffleLogic))
   \<and> \<not> hasCompletedEntrance
        (run specShuffleLogic
           [ViewportEnter,
            AnimationComplete
              \<lparr>cardId = CARD_B, position = centerBack, zIndex = 4, currentPhotoIndex = 1\<rparr>
              ONSCREEN]
           (mount specShuffleLogic))"
proof -
  let ?A = "\<lparr>cardId = CARD_A, position = center, zIndex = 5, currentPhotoIndex = 0\<rparr>"
  let ?B = "\<lparr>cardId = CARD_B, position = centerBack, zIndex = 4, currentPhotoIndex = 1\<rparr>"
  let ?s0 = "mount specShuffleLogic"
  let ?s1 = "step specShuffleLogic ViewportEnter ?s0"
  have s1: "?s1 = ?s0\<lparr>isInView := True, animationStates := (\<lambda>_. ONSCREEN)\<rparr>"
    by (simp add: step_def onViewportEnter_def entranceEffect_def mount_def)
  have pre: "\<not> hasCompletedEntrance ?s1" "?A \<in> set (cards ?s1)" "zIndex ?A = 5"
    "animationStates ?s1 (cardId ?A) = ONSCREEN"
    unfolding s1 by (simp_all add: mount_def specShuffleLogic_simps initializeCards_spec_def)
  from pre entrance_gating [of ?s1 specShuffleLogic ViewportEnter ?A "[]"]
  have "hasCompletedEntrance (step specShuffleLogic (AnimationComplete ?A ONSCREEN) ?s1)"
    by blast
  then have completed: "hasCompletedEntrance
      (run specShuffleLogic [ViewportEnter, AnimationComplete ?A ONSCREEN] ?s0)"
    by (simp add: run_Cons run_Nil)
  from completed entrance_gating [of ?s0 specShuffleLogic ViewportEnter ?A
      "[ViewportEnter, AnimationComplete ?A ONSCREEN]"]
  have once: "entranceFlips specShuffleLogic [ViewportEnter, AnimationComplete ?A ONSCREEN] ?s0
      = 1" by blast
  have "ViewportEnter \<notin> set [AnimationComplete ?A ONSCREEN, ForwardShuffleRequested]"
    by simp
  with entrance_gating [of ?s0 specShuffleLogic ViewportEnter ?A
      "[AnimationComplete ?A ONSCREEN, ForwardShuffleRequested]"]
  have never: "\<not> hasCompletedEntrance
      (run specShuffleLogic [AnimationComplete ?A ONSCREEN, ForwardShuffleRequested] ?s0)"
    by blast
  have "e = AnimationComplete ?B ONSCREEN \<Longrightarrow>
      \<not> (\<exists>c. e = AnimationComplete c ONSCREEN \<and> c \<in> set (cards ?s1) \<and> zIndex c = 5 \<and>
             animationStates ?s1 (cardId c) = ONSCREEN)" for e
    by auto
  with pre(1) entrance_gating [of ?s1 specShuffleLogic "AnimationComplete ?B ONSCREEN" ?A "[]"]
  have "\<not> hasCompletedEntrance (step specShuffleLogic (AnimationComplete ?B ONSCREEN) ?s1)"
    by blast
  then have other: "\<not> hasCompletedEntrance
      (run specShuffleLogic [ViewportEnter, AnimationComplete ?B ONSCREEN] ?s0)"
    by (simp add: run_Cons run_Nil)
  from completed once never other show ?thesis by blast
qed

end
